theory Spec2Isabelle
  imports Complex_Main "HOL-Library.Multiset"
begin

section \<open>Guitar fretboard trainer: data model\<close>

text \<open>
  The development follows \<^verbatim>\<open>guitartrainer.py\<close>. Python objects are records, a
  \<^verbatim>\<open>raise\<close> is a value of type \<open>error\<close>, and Python floats (magnitudes,
  frequencies, time stamps) are idealised as real numbers: rounding error of the
  floating-point unit is not part of the model.
\<close>

datatype error = ValueError | IndexError | ZeroDivisionError | OverflowError

text \<open>
  A mutating method is a function from the object before the call to the outcome of the
  call paired with the object after it; the outcome is \<open>Inl e\<close> when the call raised
  \<open>e\<close> and \<open>Inr v\<close> when it returned \<open>v\<close>.
\<close>

type_synonym ('s, 'a) outcome = "(error + 'a) \<times> 's"

definition MIDI_MIN :: int where
  "MIDI_MIN = 40"

definition MIDI_MAX :: int where
  "MIDI_MAX = 76"

definition THRESHOLD_MULTIPLIER_DEFAULT :: real where
  "THRESHOLD_MULTIPLIER_DEFAULT = 13 / 10"

definition ADD_NOTES_INCREMENT_DEFAULT :: int where
  "ADD_NOTES_INCREMENT_DEFAULT = 10"

definition SAMPLING_FREQ :: nat where
  "SAMPLING_FREQ = 44100"

definition SAMPLE_SIZE :: nat where
  "SAMPLE_SIZE = 2 ^ 14"

subsection \<open>Note\<close>

record Note =
  midi :: int
  name :: string
  staff_loc :: int

definition mk_note :: "int \<Rightarrow> string \<Rightarrow> int \<Rightarrow> Note" where
  "mk_note m n l = \<lparr>midi = m, name = n, staff_loc = l\<rparr>"

text \<open>
  \<^verbatim>\<open>Note.__init__\<close>: the guard is \<^verbatim>\<open>midi >= MIDI_MIN or midi <= MIDI_MAX\<close>,
  a disjunction, and the \<^verbatim>\<open>else\<close> branch raises \<^verbatim>\<open>ValueError\<close>.
\<close>

definition Note_init :: "int \<Rightarrow> string \<Rightarrow> int \<Rightarrow> error + Note" where
  "Note_init m n l =
     (if m \<ge> MIDI_MIN \<or> m \<le> MIDI_MAX then Inr (mk_note m n l) else Inl ValueError)"

text \<open>
  \<^verbatim>\<open>Note.midi_to_freq\<close> and \<^verbatim>\<open>Note.freq_to_midi\<close>. Python 2's \<^verbatim>\<open>round\<close>
  rounds a tie away from zero. \<^verbatim>\<open>np.log2\<close> gives \<open>-inf\<close> at zero and \<open>nan\<close> below
  it, on which \<^verbatim>\<open>int\<close> raises \<^verbatim>\<open>OverflowError\<close> and \<^verbatim>\<open>ValueError\<close>.
\<close>

definition midi_to_freq :: "int \<Rightarrow> real" where
  "midi_to_freq m = 440 * 2 powr ((real_of_int m - 69) / 12)"

definition py_round :: "real \<Rightarrow> int" where
  "py_round x = (if 0 \<le> x then \<lfloor>x + 1 / 2\<rfloor> else \<lceil>x - 1 / 2\<rceil>)"

definition freq_to_midi :: "real \<Rightarrow> error + int" where
  "freq_to_midi f =
     (if f = 0 then Inl OverflowError
      else if f < 0 then Inl ValueError
      else Inr (py_round (69 + 12 * log 2 (f / 440))))"

subsection \<open>Topic\<close>

record Topic =
  topic_name :: string
  topic_notes :: "Note list"

definition StringTopic :: "string \<Rightarrow> Note list \<Rightarrow> Topic" where
  "StringTopic n ns = \<lparr>topic_name = n, topic_notes = ns\<rparr>"

subsection \<open>NotePractice\<close>

record NotePractice =
  target_note :: Note
  num_notes_heard :: nat
  complete_flag :: bool
  terminate_flag :: bool
  start_timestamp :: real
  success_timestamp :: real

definition NotePractice_init :: "Note \<Rightarrow> NotePractice" where
  "NotePractice_init n =
     \<lparr>target_note = n, num_notes_heard = 0, complete_flag = False, terminate_flag = False,
      start_timestamp = 0, success_timestamp = 0\<rparr>"

text \<open>The property setters of \<^verbatim>\<open>NotePractice\<close>; each raises before it assigns.\<close>

definition set_terminate :: "bool \<Rightarrow> NotePractice \<Rightarrow> (NotePractice, unit) outcome" where
  "set_terminate v p =
     (if terminate_flag p = True \<or> v = False then (Inl ValueError, p)
      else (Inr (), p\<lparr>terminate_flag := v\<rparr>))"

definition set_complete :: "bool \<Rightarrow> NotePractice \<Rightarrow> (NotePractice, unit) outcome" where
  "set_complete v p =
     (if complete_flag p = False \<and> v = True then (Inr (), p\<lparr>complete_flag := v\<rparr>)
      else (Inl ValueError, p))"

definition set_num_notes_heard :: "nat \<Rightarrow> NotePractice \<Rightarrow> (NotePractice, unit) outcome" where
  "set_num_notes_heard v p = (Inr (), p\<lparr>num_notes_heard := v\<rparr>)"

definition set_start_timestamp :: "real \<Rightarrow> NotePractice \<Rightarrow> (NotePractice, unit) outcome" where
  "set_start_timestamp v p =
     (if start_timestamp p \<noteq> 0 then (Inl ValueError, p)
      else (Inr (), p\<lparr>start_timestamp := v\<rparr>))"

definition set_success_timestamp :: "real \<Rightarrow> NotePractice \<Rightarrow> (NotePractice, unit) outcome" where
  "set_success_timestamp v p =
     (if v \<le> start_timestamp p \<or> success_timestamp p \<noteq> 0 then (Inl ValueError, p)
      else (Inr (), p\<lparr>success_timestamp := v\<rparr>))"

text \<open>\<^verbatim>\<open>elapsed_time\<close>; the clock reading \<^verbatim>\<open>time.time()\<close> is the argument \<open>now\<close>.\<close>

definition elapsed_time :: "real \<Rightarrow> NotePractice \<Rightarrow> real" where
  "elapsed_time now p =
     (if complete_flag p then success_timestamp p - start_timestamp p
      else now - start_timestamp p)"

subsection \<open>The catalog of topics built by \<^verbatim>\<open>Trainer.__init__\<close>\<close>

definition topic_0 :: Topic where
  "topic_0 = StringTopic ''Low E String Sans Sharps/Flats''
     [mk_note 40 ''E'' (-5), mk_note 41 ''F'' (-4), mk_note 43 ''G'' (-3),
      mk_note 45 ''A'' (-2), mk_note 47 ''B'' (-1), mk_note 48 ''C'' 0, mk_note 50 ''D'' 1,
      mk_note 52 ''E'' 2]"

definition topic_1 :: Topic where
  "topic_1 = StringTopic ''Low E String Incl Sharps''
     [mk_note 40 ''E'' (-5), mk_note 41 ''F'' (-4), mk_note 42 ''F#'' (-4),
      mk_note 43 ''G'' (-3), mk_note 44 ''G#'' (-3), mk_note 45 ''A'' (-2),
      mk_note 46 ''A#'' (-2), mk_note 47 ''B'' (-1), mk_note 48 ''C'' 0, mk_note 49 ''C#'' 0,
      mk_note 50 ''D'' 1, mk_note 51 ''D#'' 1, mk_note 52 ''E'' 2]"

definition topic_2 :: Topic where
  "topic_2 = StringTopic ''Low E String Incl Flats''
     [mk_note 40 ''E'' (-5), mk_note 41 ''F'' (-4), mk_note 42 ''Gb'' (-3),
      mk_note 43 ''G'' (-3), mk_note 44 ''Ab'' (-2), mk_note 45 ''A'' (-2),
      mk_note 46 ''Bb'' (-1), mk_note 47 ''B'' (-1), mk_note 48 ''C'' 0, mk_note 49 ''Db'' 1,
      mk_note 50 ''D'' 1, mk_note 51 ''Eb'' 2, mk_note 52 ''E'' 2]"

definition topic_3 :: Topic where
  "topic_3 = StringTopic ''A String Sans Sharps/Flats''
     [mk_note 45 ''A'' (-2), mk_note 47 ''B'' (-1), mk_note 48 ''C'' 0, mk_note 50 ''D'' 1,
      mk_note 52 ''E'' 2, mk_note 53 ''F'' 3, mk_note 55 ''G'' 4, mk_note 57 ''A'' 5]"

definition topic_4 :: Topic where
  "topic_4 = StringTopic ''A String Incl Sharps''
     [mk_note 45 ''A'' (-2), mk_note 46 ''A#'' (-2), mk_note 47 ''B'' (-1),
      mk_note 48 ''C'' 0, mk_note 49 ''C#'' 0, mk_note 50 ''D'' 1, mk_note 51 ''D#'' 1,
      mk_note 52 ''E'' 2, mk_note 53 ''F'' 3, mk_note 54 ''F#'' 3, mk_note 55 ''G'' 4,
      mk_note 56 ''G#'' 4, mk_note 57 ''A'' 5]"

definition topic_5 :: Topic where
  "topic_5 = StringTopic ''A String Incl Flats''
     [mk_note 45 ''A'' (-2), mk_note 46 ''Bb'' (-1), mk_note 47 ''B'' (-1),
      mk_note 48 ''C'' 0, mk_note 49 ''Db'' 1, mk_note 50 ''D'' 1, mk_note 51 ''Eb'' 2,
      mk_note 52 ''E'' 2, mk_note 53 ''F'' 3, mk_note 54 ''Gb'' 4, mk_note 55 ''G'' 4,
      mk_note 56 ''Ab'' 5, mk_note 57 ''A'' 5]"

definition topic_6 :: Topic where
  "topic_6 = StringTopic ''D String Sans Sharps/Flats''
     [mk_note 50 ''D'' 1, mk_note 52 ''E'' 2, mk_note 53 ''F'' 3, mk_note 55 ''G'' 4,
      mk_note 57 ''A'' 5, mk_note 59 ''B'' 6, mk_note 60 ''C'' 7, mk_note 62 ''D'' 8]"

definition topic_7 :: Topic where
  "topic_7 = StringTopic ''D String Incl Sharps''
     [mk_note 50 ''D'' 1, mk_note 51 ''D#'' 1, mk_note 52 ''E'' 2, mk_note 53 ''F'' 3,
      mk_note 54 ''F#'' 3, mk_note 55 ''G'' 4, mk_note 56 ''G#'' 4, mk_note 57 ''A'' 5,
      mk_note 58 ''A#'' 5, mk_note 59 ''B'' 6, mk_note 60 ''C'' 7, mk_note 61 ''C#'' 7,
      mk_note 62 ''D'' 8]"

definition topic_8 :: Topic where
  "topic_8 = StringTopic ''D String Incl Flats''
     [mk_note 50 ''D'' 1, mk_note 51 ''Eb'' 2, mk_note 52 ''E'' 2, mk_note 53 ''F'' 3,
      mk_note 54 ''Gb'' 4, mk_note 55 ''G'' 4, mk_note 56 ''Ab'' 5, mk_note 57 ''A'' 5,
      mk_note 58 ''Bb'' 6, mk_note 59 ''B'' 6, mk_note 60 ''C'' 7, mk_note 61 ''Db'' 8,
      mk_note 62 ''D'' 8]"

definition topic_9 :: Topic where
  "topic_9 = StringTopic ''G String Sans Sharps/Flats''
     [mk_note 55 ''G'' 4, mk_note 57 ''A'' 5, mk_note 59 ''B'' 6, mk_note 60 ''C'' 7,
      mk_note 62 ''D'' 8, mk_note 64 ''E'' 9, mk_note 65 ''F'' 10, mk_note 67 ''G'' 11]"

definition topic_10 :: Topic where
  "topic_10 = StringTopic ''G String Incl Sharps''
     [mk_note 55 ''G'' 4, mk_note 56 ''G#'' 4, mk_note 57 ''A'' 5, mk_note 58 ''A#'' 5,
      mk_note 59 ''B'' 6, mk_note 60 ''C'' 7, mk_note 61 ''C#'' 7, mk_note 62 ''D'' 8,
      mk_note 63 ''D#'' 8, mk_note 64 ''E'' 9, mk_note 65 ''F'' 10, mk_note 66 ''F#'' 10,
      mk_note 67 ''G'' 11]"

definition topic_11 :: Topic where
  "topic_11 = StringTopic ''G String Incl Flats''
     [mk_note 55 ''G'' 4, mk_note 56 ''Ab'' 5, mk_note 57 ''A'' 5, mk_note 58 ''Bb'' 6,
      mk_note 59 ''B'' 6, mk_note 60 ''C'' 7, mk_note 61 ''Db'' 8, mk_note 62 ''D'' 8,
      mk_note 63 ''Eb'' 9, mk_note 64 ''E'' 9, mk_note 65 ''F'' 10, mk_note 66 ''Gb'' 11,
      mk_note 67 ''G'' 11]"

definition topic_12 :: Topic where
  "topic_12 = StringTopic ''B String Sans Sharps/Flats''
     [mk_note 59 ''B'' 6, mk_note 60 ''C'' 7, mk_note 62 ''D'' 8, mk_note 64 ''E'' 9,
      mk_note 65 ''F'' 10, mk_note 67 ''G'' 11, mk_note 69 ''A'' 12, mk_note 71 ''B'' 13]"

definition topic_13 :: Topic where
  "topic_13 = StringTopic ''B String Incl Sharps''
     [mk_note 59 ''B'' 6, mk_note 60 ''C'' 7, mk_note 61 ''C#'' 7, mk_note 62 ''D'' 8,
      mk_note 63 ''D#'' 8, mk_note 64 ''E'' 9, mk_note 65 ''F'' 10, mk_note 66 ''F#'' 10,
      mk_note 67 ''G'' 11, mk_note 68 ''G#'' 11, mk_note 69 ''A'' 12, mk_note 70 ''A#'' 12,
      mk_note 71 ''B'' 13]"

definition topic_14 :: Topic where
  "topic_14 = StringTopic ''B String Incl Flats''
     [mk_note 59 ''B'' 6, mk_note 60 ''C'' 7, mk_note 61 ''Db'' 8, mk_note 62 ''D'' 8,
      mk_note 63 ''Eb'' 9, mk_note 64 ''E'' 9, mk_note 65 ''F'' 10, mk_note 66 ''Gb'' 11,
      mk_note 67 ''G'' 11, mk_note 68 ''Ab'' 12, mk_note 69 ''A'' 12, mk_note 70 ''Bb'' 13,
      mk_note 71 ''B'' 13]"

definition topic_15 :: Topic where
  "topic_15 = StringTopic ''High E String Sans Sharps/Flats''
     [mk_note 64 ''E'' 9, mk_note 65 ''F'' 10, mk_note 67 ''G'' 11, mk_note 69 ''A'' 12,
      mk_note 71 ''B'' 13, mk_note 72 ''C'' 14, mk_note 74 ''D'' 15, mk_note 76 ''E'' 16]"

definition topic_16 :: Topic where
  "topic_16 = StringTopic ''High E String Incl Sharps''
     [mk_note 64 ''E'' 9, mk_note 65 ''F'' 10, mk_note 66 ''F#'' 10, mk_note 67 ''G'' 11,
      mk_note 68 ''G#'' 11, mk_note 69 ''A'' 12, mk_note 70 ''A#'' 12, mk_note 71 ''B'' 13,
      mk_note 72 ''C'' 14, mk_note 73 ''C#'' 14, mk_note 74 ''D'' 15, mk_note 75 ''D#'' 15,
      mk_note 76 ''E'' 16]"

definition topic_17 :: Topic where
  "topic_17 = StringTopic ''High E String Incl Flats''
     [mk_note 64 ''E'' 9, mk_note 65 ''F'' 10, mk_note 66 ''Gb'' 11, mk_note 67 ''G'' 11,
      mk_note 68 ''Ab'' 12, mk_note 69 ''A'' 12, mk_note 70 ''Bb'' 13, mk_note 71 ''B'' 13,
      mk_note 72 ''C'' 14, mk_note 73 ''Db'' 15, mk_note 74 ''D'' 15, mk_note 75 ''Eb'' 16,
      mk_note 76 ''E'' 16]"

definition catalog :: "Topic list" where
  "catalog =
     [topic_0, topic_1, topic_2, topic_3, topic_4, topic_5,
      topic_6, topic_7, topic_8, topic_9, topic_10, topic_11,
      topic_12, topic_13, topic_14, topic_15, topic_16, topic_17]"

subsection \<open>Python containers and the random source\<close>

text \<open>
  Helpers are sums: \<open>Inl e\<close> when Python would raise \<open>e\<close>. \<open>bind_err\<close> sequences two
  computations and stops at the first exception.
\<close>

definition bind_err :: "error + 'a \<Rightarrow> ('a \<Rightarrow> error + 'b) \<Rightarrow> error + 'b" where
  "bind_err m f = (case m of Inl e \<Rightarrow> Inl e | Inr x \<Rightarrow> f x)"

text \<open>\<^verbatim>\<open>xs[i]\<close>: a negative index counts from the end.\<close>

definition py_getitem :: "'a list \<Rightarrow> int \<Rightarrow> error + 'a" where
  "py_getitem xs i =
     (if 0 \<le> i \<and> i < int (length xs) then Inr (xs ! nat i)
      else if i < 0 \<and> - int (length xs) \<le> i then Inr (xs ! nat (int (length xs) + i))
      else Inl IndexError)"

text \<open>\<^verbatim>\<open>xs.index(x)\<close>: position of the first element equal to \<open>x\<close>.\<close>

fun list_index :: "'a list \<Rightarrow> 'a \<Rightarrow> error + nat" where
  "list_index [] x = Inl ValueError"
| "list_index (y # ys) x =
     (if y = x then Inr 0 else bind_err (list_index ys x) (\<lambda>i. Inr (Suc i)))"

text \<open>\<^verbatim>\<open>del xs[i]\<close> for a non-negative index.\<close>

definition list_del :: "nat \<Rightarrow> 'a list \<Rightarrow> error + 'a list" where
  "list_del i xs = (if i < length xs then Inr (take i xs @ drop (Suc i) xs) else Inl IndexError)"

text \<open>\<^verbatim>\<open>xs.remove(x)\<close>: deletes the first element equal to \<open>x\<close>.\<close>

definition list_remove :: "'a \<Rightarrow> 'a list \<Rightarrow> error + 'a list" where
  "list_remove x xs = (if x \<in> set xs then Inr (remove1 x xs) else Inl ValueError)"

text \<open>
  The pseudo-random generator is an input of the model: every call of \<^verbatim>\<open>random.choice\<close>
  or \<^verbatim>\<open>random.randint\<close> receives a natural number \<open>d\<close>, the draw, and any element of
  the sequence (any integer of the range) is the result for some draw.
\<close>

definition choice :: "'a list \<Rightarrow> nat \<Rightarrow> error + 'a" where
  "choice xs d = (if xs = [] then Inl IndexError else Inr (xs ! (d mod length xs)))"

definition randint :: "int \<Rightarrow> int \<Rightarrow> nat \<Rightarrow> error + int" where
  "randint a b d = (if b < a then Inl ValueError else Inr (a + int d mod (b - a + 1)))"

subsection \<open>Trainer\<close>

definition ADD_NOTES_INCREMENTALLY :: int where
  "ADD_NOTES_INCREMENTALLY = 0"

definition ADD_NOTES_ALL_AT_ONCE :: int where
  "ADD_NOTES_ALL_AT_ONCE = 1"

record Trainer =
  noise_threshold :: real
  noise_levels :: "real list"
  topics :: "Topic list"
  topic :: Topic
  topic_changed :: bool
  notes_in_play :: "Note list"
  notes_in_queue :: "Note list"
  practiced_notes :: "NotePractice list"
  add_notes_method :: int
  add_notes_method_changed :: bool
  threshold_multiplier :: real
  add_notes_increment :: int

text \<open>
  \<^verbatim>\<open>Trainer.__init__\<close>. The spectrum tables it computes are never assigned again and
  are constants below; the audio buffer and stream are outside the model.
\<close>

definition Trainer_init :: Trainer where
  "Trainer_init =
     \<lparr>noise_threshold = 100000,
      noise_levels = replicate 50 100000,
      topics = catalog,
      topic = catalog ! 1,
      topic_changed = True,
      notes_in_play = [],
      notes_in_queue = [],
      practiced_notes = [],
      add_notes_method = ADD_NOTES_INCREMENTALLY,
      add_notes_method_changed = False,
      threshold_multiplier = THRESHOLD_MULTIPLIER_DEFAULT,
      add_notes_increment = ADD_NOTES_INCREMENT_DEFAULT\<rparr>"

subsubsection \<open>Configuration setters\<close>

definition set_threshold_multiplier :: "real \<Rightarrow> Trainer \<Rightarrow> (Trainer, unit) outcome" where
  "set_threshold_multiplier v s =
     (if 1 \<le> v \<and> v \<le> 3 then (Inr (), s\<lparr>threshold_multiplier := v\<rparr>)
      else (Inl ValueError, s))"

definition set_add_notes_increment :: "int \<Rightarrow> Trainer \<Rightarrow> (Trainer, unit) outcome" where
  "set_add_notes_increment v s =
     (if 1 \<le> v \<and> v \<le> 100 then (Inr (), s\<lparr>add_notes_increment := v\<rparr>)
      else (Inl ValueError, s))"

definition set_add_notes_method :: "int \<Rightarrow> Trainer \<Rightarrow> (Trainer, unit) outcome" where
  "set_add_notes_method v s =
     (if v = ADD_NOTES_INCREMENTALLY \<or> v = ADD_NOTES_ALL_AT_ONCE then
        (let s1 = (if v \<noteq> add_notes_method s then s\<lparr>add_notes_method_changed := True\<rparr> else s)
         in (Inr (), s1\<lparr>add_notes_method := v\<rparr>))
      else (Inl ValueError, s))"

text \<open>
  The \<^verbatim>\<open>current_topic\<close> setter: the guard is \<^verbatim>\<open>value <= len(self.topics)\<close>; the
  subscript \<^verbatim>\<open>self._topics[value]\<close> is evaluated before either field is assigned.
\<close>

definition set_current_topic :: "int \<Rightarrow> Trainer \<Rightarrow> (Trainer, unit) outcome" where
  "set_current_topic v s =
     (if v \<le> int (length (topics s)) then
        (case py_getitem (topics s) v of
           Inl e \<Rightarrow> (Inl e, s)
         | Inr t \<Rightarrow> (Inr (), s\<lparr>topic := t, topic_changed := True\<rparr>))
      else (Inl ValueError, s))"

text \<open>\<^verbatim>\<open>kill_current_note_practice\<close> sets \<^verbatim>\<open>terminate\<close> on the last attempt.\<close>

definition kill_current_note_practice :: "Trainer \<Rightarrow> (Trainer, unit) outcome" where
  "kill_current_note_practice s =
     (if practiced_notes s \<noteq> [] then
        (case set_terminate True (last (practiced_notes s)) of
           (Inl e, p) \<Rightarrow> (Inl e, s)
         | (Inr u, p) \<Rightarrow> (Inr (), s\<lparr>practiced_notes := butlast (practiced_notes s) @ [p]\<rparr>))
      else (Inr (), s))"

subsubsection \<open>Choosing the next note\<close>

text \<open>
  The three statements that move one note from the queue into play:
  \<^verbatim>\<open>r = random.choice(queue); play.append(r); del queue[queue.index(r)]\<close>.
\<close>

definition move_note :: "nat \<Rightarrow> Trainer \<Rightarrow> error + Trainer" where
  "move_note d s =
     bind_err (choice (notes_in_queue s) d) (\<lambda>r.
     bind_err (list_index (notes_in_queue s) r) (\<lambda>i.
     bind_err (list_del i (notes_in_queue s)) (\<lambda>q.
       Inr (s\<lparr>notes_in_play := notes_in_play s @ [r], notes_in_queue := q\<rparr>))))"

text \<open>
  First half of \<^verbatim>\<open>new_note_practice\<close>: the reset after a change of topic or method,
  or else the incremental addition. \<open>qd\<close> gives the draws for the queue, one for each
  pass of the seeding loop; the addition uses \<open>qd 0\<close>. Python evaluates
  \<^verbatim>\<open>a and b and c\<close> from the left, so the remainder is only computed when the history
  is not empty.
\<close>

definition update_notes :: "(nat \<Rightarrow> nat) \<Rightarrow> Trainer \<Rightarrow> error + Trainer" where
  "update_notes qd s =
     (if topic_changed s \<or> add_notes_method_changed s then
        (let s1 = s\<lparr>topic_changed := False, add_notes_method_changed := False,
                     practiced_notes := []\<rparr>
         in if add_notes_method s1 = ADD_NOTES_INCREMENTALLY then
              bind_err (move_note (qd 0)
                          (s1\<lparr>notes_in_queue := topic_notes (topic s1), notes_in_play := []\<rparr>))
                (\<lambda>s2. bind_err (move_note (qd 1) s2) (move_note (qd 2)))
            else if add_notes_method s1 = ADD_NOTES_ALL_AT_ONCE then
              Inr (s1\<lparr>notes_in_queue := [], notes_in_play := topic_notes (topic s1)\<rparr>)
            else Inr s1)
      else if length (practiced_notes s) > 0 then
        (if add_notes_increment s = 0 then Inl ZeroDivisionError
         else if int (length (practiced_notes s)) mod add_notes_increment s = 0
                 \<and> length (notes_in_queue s) > 0
              then move_note (qd 0) s
              else Inr s)
      else Inr s)"

text \<open>
  \<^verbatim>\<open>_notes_sorted_by_times_practiced\<close>: the loop over the reversed history stops after
  five times as many attempts as there are notes in play; each attempt increments the
  first entry whose note equals its target; Python's sort is stable, as \<open>sort_key\<close> is.
\<close>

fun bump_times :: "Note \<Rightarrow> (Note \<times> nat) list \<Rightarrow> (Note \<times> nat) list" where
  "bump_times t [] = []"
| "bump_times t ((n, k) # rest) =
     (if n = t then (n, Suc k) # rest else (n, k) # bump_times t rest)"

definition notes_sorted_by_times_practiced :: "Trainer \<Rightarrow> Note list" where
  "notes_sorted_by_times_practiced s =
     (let note_times0 = map (\<lambda>n. (n, 0)) (notes_in_play s);
          recent = take (length note_times0 * 5) (rev (practiced_notes s));
          note_times = foldl (\<lambda>nt p. bump_times (target_note p) nt) note_times0 recent
      in map fst (sort_key snd note_times))"

text \<open>Second half: the choice of the note, with the draw \<open>pd\<close>.\<close>

definition pick_note :: "nat \<Rightarrow> Trainer \<Rightarrow> error + Note" where
  "pick_note pd s =
     (if length (practiced_notes s) \<ge> 4 then
        bind_err (list_remove (target_note (last (practiced_notes s)))
                    (notes_sorted_by_times_practiced s)) (\<lambda>ns.
        bind_err (randint 0 (min (int (length ns) - 1) 2) pd) (\<lambda>i.
          py_getitem ns i))
      else if length (practiced_notes s) > 0 then
        bind_err (list_remove (target_note (last (practiced_notes s))) (notes_in_play s))
          (\<lambda>ns. choice ns pd)
      else choice (notes_in_play s) pd)"

text \<open>
  \<^verbatim>\<open>new_note_practice\<close>. The result is the trainer after the call; the capture thread
  it starts is modelled by \<open>process_reading\<close> below.
\<close>

definition new_note_practice :: "(nat \<Rightarrow> nat) \<Rightarrow> nat \<Rightarrow> Trainer \<Rightarrow> error + Trainer" where
  "new_note_practice qd pd s =
     bind_err (update_notes qd s) (\<lambda>s1.
     bind_err (pick_note pd s1) (\<lambda>r.
       Inr (s1\<lparr>practiced_notes := practiced_notes s1 @ [NotePractice_init r]\<rparr>)))"

subsubsection \<open>The capture loop\<close>

text \<open>\<^verbatim>\<open>np.average\<close> of a list.\<close>

definition average :: "real list \<Rightarrow> real" where
  "average xs = sum_list xs / real (length xs)"

text \<open>
  The body of the loop in \<^verbatim>\<open>_capture_note_thread\<close> after the spectrum of the block
  has given \<open>freq\<close> and \<open>peak\<close>; \<open>now\<close> is the clock reading. The statements are kept in
  the order of the source: \<^verbatim>\<open>popleft\<close>, \<^verbatim>\<open>append\<close>, the assignment of
  \<^verbatim>\<open>_noise_threshold\<close>, then the test \<^verbatim>\<open>peak > self._noise_threshold\<close>. The value
  returned says whether the loop stops (\<^verbatim>\<open>break\<close>).
\<close>

definition process_reading ::
  "real \<Rightarrow> real \<Rightarrow> real \<Rightarrow> Trainer \<times> NotePractice \<Rightarrow> (Trainer \<times> NotePractice, bool) outcome" where
  "process_reading freq peak now sp =
     (case sp of (s, p) \<Rightarrow>
      (case noise_levels s of
         [] \<Rightarrow> (Inl IndexError, (s, p))
       | oldest # rest \<Rightarrow>
           (let s1 = s\<lparr>noise_levels := rest\<rparr>;
                s2 = s1\<lparr>noise_levels := noise_levels s1 @ [peak]\<rparr>;
                s3 = s2\<lparr>noise_threshold :=
                          average (take 10 (sort (noise_levels s2))) * threshold_multiplier s2\<rparr>
            in if peak > noise_threshold s3 then
                 (let p1 = p\<lparr>num_notes_heard := num_notes_heard p + 1\<rparr>
                  in case freq_to_midi freq of
                       Inl e \<Rightarrow> (Inl e, (s3, p1))
                     | Inr m \<Rightarrow>
                         if m = midi (target_note p1) then
                           (case set_success_timestamp now p1 of
                              (Inl e, p2) \<Rightarrow> (Inl e, (s3, p2))
                            | (Inr u, p2) \<Rightarrow>
                                (case set_complete True p2 of
                                   (Inl e, p3) \<Rightarrow> (Inl e, (s3, p3))
                                 | (Inr u, p3) \<Rightarrow> (Inr True, (s3, p3))))
                         else (Inr False, (s3, p1)))
               else (Inr False, (s3, p)))))"

subsubsection \<open>Spectrum analysis\<close>

text \<open>
  \<^verbatim>\<open>np.argmax\<close> and \<^verbatim>\<open>np.argmin\<close> return the first position of the extreme value;
  \<^verbatim>\<open>np.argmax\<close> of an empty array raises \<^verbatim>\<open>ValueError\<close>.
\<close>

definition first_pos :: "real \<Rightarrow> real list \<Rightarrow> nat" where
  "first_pos v xs = length (takeWhile (\<lambda>x. x \<noteq> v) xs)"

definition argmax :: "real list \<Rightarrow> error + nat" where
  "argmax xs = (if xs = [] then Inl ValueError else Inr (first_pos (Max (set xs)) xs))"

definition argmin :: "real list \<Rightarrow> error + nat" where
  "argmin xs = (if xs = [] then Inl ValueError else Inr (first_pos (Min (set xs)) xs))"

text \<open>
  \<^verbatim>\<open>np.fft.fftfreq(n, d)\<close> with \<open>d = 1 / SAMPLING_FREQ\<close>: the bins
  \<open>0, 1, \<dots>, n/2 - 1, -n/2, \<dots>, -1\<close>, each multiplied by \<open>SAMPLING_FREQ / n\<close>.
\<close>

definition fftfreq :: "nat \<Rightarrow> real \<Rightarrow> real list" where
  "fftfreq n rate =
     map (\<lambda>i. (if i < (n - 1) div 2 + 1 then real i else real i - real n) * (rate / real n)) [0..<n]"

definition fft_freqs :: "real list" where
  "fft_freqs = fftfreq SAMPLE_SIZE (real SAMPLING_FREQ)"

definition nearest_bin :: "real \<Rightarrow> error + nat" where
  "nearest_bin f = argmin (map (\<lambda>x. \<bar>x - f\<bar>) fft_freqs)"

definition fft_imin :: "error + nat" where
  "fft_imin = nearest_bin (midi_to_freq MIDI_MIN)"

definition fft_imax :: "error + nat" where
  "fft_imax = bind_err (nearest_bin (midi_to_freq MIDI_MAX)) (\<lambda>i. Inr (i + 1))"

text \<open>
  The two lines of the loop that read the spectrum. \<open>mags\<close> stands for
  \<^verbatim>\<open>np.abs(fft)\<close>, the magnitudes of the \<open>SAMPLE_SIZE div 2 + 1\<close> bins that
  \<^verbatim>\<open>np.fft.rfft\<close> returns for a block; the transform itself is not modelled. The slice
  \<^verbatim>\<open>[imin:imax]\<close> is \<open>take (imax - imin) (drop imin mags)\<close>. The result is the pair
  of \<open>freq\<close> and \<open>peak\<close>.
\<close>

definition analyse :: "real list \<Rightarrow> error + (real \<times> real)" where
  "analyse mags =
     bind_err fft_imin (\<lambda>imin.
     bind_err fft_imax (\<lambda>imax.
     bind_err (argmax (take (imax - imin) (drop imin mags))) (\<lambda>k.
     bind_err (py_getitem fft_freqs (int (k + imin))) (\<lambda>freq.
       Inr (freq, average mags)))))"

text \<open>One pass of the loop on the spectrum of one block.\<close>

definition capture_block ::
  "real list \<Rightarrow> real \<Rightarrow> Trainer \<times> NotePractice \<Rightarrow> (Trainer \<times> NotePractice, bool) outcome" where
  "capture_block mags now sp =
     (case analyse mags of
        Inl e \<Rightarrow> (Inl e, sp)
      | Inr (freq, peak) \<Rightarrow> process_reading freq peak now sp)"

section \<open>Runs of the trainer\<close>

text \<open>
  The calls a client or the capture thread can make on a trainer. \<open>NewNote qd pd\<close> is a
  call of \<^verbatim>\<open>new_note_practice\<close> with the draws of the random source; \<open>CaptureStart\<close>
  and \<open>Capture\<close> are the capture thread at work on the attempt at position \<open>i\<close> of the
  history (the thread holds the attempt by reference); \<open>CaptureDetached\<close> is a pass of a
  thread whose attempt is no longer in the history, which only touches the noise window.
\<close>

datatype event =
    SetMultiplier real
  | SetIncrement int
  | SetMethod int
  | SetTopic int
  | Kill
  | NewNote "nat \<Rightarrow> nat" nat
  | CaptureStart nat real
  | Capture nat real real real
  | CaptureDetached NotePractice real real real

text \<open>
  The trainer after an event. A setter that raises leaves the trainer as it was, and a
  capture event for a position that the history does not have does nothing. \<open>None\<close> is the
  result when \<^verbatim>\<open>new_note_practice\<close> raised.
\<close>

fun apply_event :: "event \<Rightarrow> Trainer \<Rightarrow> Trainer option" where
  "apply_event (SetMultiplier v) s = Some (snd (set_threshold_multiplier v s))"
| "apply_event (SetIncrement v) s = Some (snd (set_add_notes_increment v s))"
| "apply_event (SetMethod v) s = Some (snd (set_add_notes_method v s))"
| "apply_event (SetTopic v) s = Some (snd (set_current_topic v s))"
| "apply_event Kill s = Some (snd (kill_current_note_practice s))"
| "apply_event (NewNote qd pd) s =
     (case new_note_practice qd pd s of Inl e \<Rightarrow> None | Inr s' \<Rightarrow> Some s')"
| "apply_event (CaptureStart i now) s =
     (if i < length (practiced_notes s) then
        Some (s\<lparr>practiced_notes :=
                  (practiced_notes s)[i := snd (set_start_timestamp now (practiced_notes s ! i))]\<rparr>)
      else Some s)"
| "apply_event (Capture i freq peak now) s =
     (if i < length (practiced_notes s) then
        (case snd (process_reading freq peak now (s, practiced_notes s ! i)) of
           (s', p') \<Rightarrow> Some (s'\<lparr>practiced_notes := (practiced_notes s')[i := p']\<rparr>))
      else Some s)"
| "apply_event (CaptureDetached p freq peak now) s =
     Some (fst (snd (process_reading freq peak now (s, p))))"

fun run :: "event list \<Rightarrow> Trainer \<Rightarrow> Trainer option" where
  "run [] s = Some s"
| "run (e # es) s = (case apply_event e s of None \<Rightarrow> None | Some s' \<Rightarrow> run es s')"

definition reachable :: "Trainer \<Rightarrow> bool" where
  "reachable s \<longleftrightarrow> (\<exists>es. run es Trainer_init = Some s)"

text \<open>The events that select a note, and those that change what the schedule depends on.\<close>

fun is_new_note :: "event \<Rightarrow> bool" where
  "is_new_note (NewNote qd pd) = True"
| "is_new_note e = False"

fun is_setter :: "event \<Rightarrow> bool" where
  "is_setter (SetMultiplier v) = True"
| "is_setter (SetIncrement v) = True"
| "is_setter (SetMethod v) = True"
| "is_setter (SetTopic v) = True"
| "is_setter e = False"

definition selections :: "event list \<Rightarrow> nat" where
  "selections es = length (filter is_new_note es)"

definition no_setters :: "event list \<Rightarrow> bool" where
  "no_setters es = list_all (\<lambda>e. \<not> is_setter e) es"

text \<open>The number of attempts of the history that were completed.\<close>

definition completed_attempts :: "Trainer \<Rightarrow> nat" where
  "completed_attempts s = length (filter complete_flag (practiced_notes s))"

definition play_size :: "Trainer \<Rightarrow> nat" where
  "play_size s = length (notes_in_play s)"

definition queue_size :: "Trainer \<Rightarrow> nat" where
  "queue_size s = length (notes_in_queue s)"

subsection \<open>Invariants\<close>

text \<open>
  Between a reset and the next change of topic or method, the notes in play and in the
  queue together are the notes of the topic, at least three notes are in play, and every
  target of the history is in play.
\<close>

definition consistent :: "Trainer \<Rightarrow> bool" where
  "consistent s \<longleftrightarrow>
     mset (notes_in_play s @ notes_in_queue s) = mset (topic_notes (topic s))
     \<and> 3 \<le> length (notes_in_play s)
     \<and> set (map target_note (practiced_notes s)) \<subseteq> set (notes_in_play s)"

definition trainer_inv :: "Trainer \<Rightarrow> bool" where
  "trainer_inv s \<longleftrightarrow>
     topics s = catalog \<and> topic s \<in> set catalog
     \<and> (add_notes_method s = ADD_NOTES_INCREMENTALLY \<or> add_notes_method s = ADD_NOTES_ALL_AT_ONCE)
     \<and> 1 \<le> add_notes_increment s \<and> add_notes_increment s \<le> 100
     \<and> length (noise_levels s) = 50
     \<and> (\<not> topic_changed s \<and> \<not> add_notes_method_changed s \<longrightarrow> consistent s)"

text \<open>
  The schedule of the incremental method. \<open>reset_pending\<close>: a change of topic or method
  awaits the next selection. \<open>scheduled n k\<close>: since the reset there were \<open>k\<close>
  selections under the increment \<open>n\<close>, and the number of notes in play is three plus one
  for every \<open>n\<close> earlier selections, as long as the topic has notes left.
\<close>

definition reset_pending :: "Trainer \<Rightarrow> bool" where
  "reset_pending s \<longleftrightarrow>
     trainer_inv s \<and> (topic_changed s \<or> add_notes_method_changed s)
     \<and> add_notes_method s = ADD_NOTES_INCREMENTALLY"

definition scheduled :: "nat \<Rightarrow> nat \<Rightarrow> Trainer \<Rightarrow> bool" where
  "scheduled n k s \<longleftrightarrow>
     trainer_inv s \<and> \<not> topic_changed s \<and> \<not> add_notes_method_changed s
     \<and> add_notes_increment s = int n \<and> length (practiced_notes s) = k
     \<and> length (notes_in_play s)
         = 3 + min (length (topic_notes (topic s)) - 3) ((k - 1) div n)"

text \<open>The fields that decide the schedule.\<close>

definition same_schedule :: "Trainer \<Rightarrow> Trainer \<Rightarrow> bool" where
  "same_schedule s s' \<longleftrightarrow>
     topic s' = topic s \<and> topic_changed s' = topic_changed s
     \<and> add_notes_method_changed s' = add_notes_method_changed s
     \<and> add_notes_method s' = add_notes_method s
     \<and> add_notes_increment s' = add_notes_increment s
     \<and> notes_in_play s' = notes_in_play s \<and> notes_in_queue s' = notes_in_queue s
     \<and> length (practiced_notes s') = length (practiced_notes s)"

subsection \<open>Example values\<close>

text \<open>An attempt on the note A that has gone through every transition once.\<close>

definition finished_attempt :: NotePractice where
  "finished_attempt =
     (NotePractice_init (mk_note 45 ''A'' (- 2)))
       \<lparr>complete_flag := True, terminate_flag := True, start_timestamp := 5,
        success_timestamp := 7\<rparr>"

text \<open>An attempt on the note A whose capture has started at time 1.\<close>

definition listening_attempt :: NotePractice where
  "listening_attempt = (NotePractice_init (mk_note 45 ''A'' (- 2)))\<lparr>start_timestamp := 1\<rparr>"

text \<open>A random source whose every draw is 0: each choice takes the first candidate.\<close>

definition zero_draws :: "nat \<Rightarrow> nat" where
  "zero_draws i = 0"

text \<open>
  The fresh trainer after one call of \<^verbatim>\<open>new_note_practice\<close> under \<open>zero_draws\<close>: the
  first three notes of the topic ``Low E String Incl Sharps'' are in play and the first
  of them is the target.
\<close>

definition first_state :: Trainer where
  "first_state =
     Trainer_init
       \<lparr>topic_changed := False,
        notes_in_play := [mk_note 40 ''E'' (- 5), mk_note 41 ''F'' (- 4), mk_note 42 ''F#'' (- 4)],
        notes_in_queue :=
          [mk_note 43 ''G'' (- 3), mk_note 44 ''G#'' (- 3), mk_note 45 ''A'' (- 2),
           mk_note 46 ''A#'' (- 2), mk_note 47 ''B'' (- 1), mk_note 48 ''C'' 0,
           mk_note 49 ''C#'' 0, mk_note 50 ''D'' 1, mk_note 51 ''D#'' 1, mk_note 52 ''E'' 2],
        practiced_notes := [NotePractice_init (mk_note 40 ''E'' (- 5))]\<rparr>"

text \<open>
  Ten attempts, each abandoned through \<^verbatim>\<open>kill_current_note_practice\<close> before the next
  one is requested, and the request of an eleventh.
\<close>

definition abandoned_ten :: "event list" where
  "abandoned_ten = concat (replicate 10 [NewNote zero_draws 0, Kill])"

definition abandoned_then_next :: "event list" where
  "abandoned_then_next = abandoned_ten @ [NewNote zero_draws 0]"

text \<open>The fresh trainer with the topic ``Low E String Sans Sharps/Flats'' of 8 notes selected.\<close>

definition topic_0_state :: Trainer where
  "topic_0_state = snd (set_current_topic 0 Trainer_init)"

text \<open>Eleven requests for a note in a row.\<close>

definition eleven_requests :: "event list" where
  "eleven_requests = replicate 11 (NewNote zero_draws 0)"

text \<open>
  The magnitudes of a spectrum whose only energy is in bin 5, about 13 Hz, far below the
  restricted range.
\<close>

definition hum_spectrum :: "real list" where
  "hum_spectrum = (replicate 8193 0)[5 := 9]"

section \<open>Note construction and pitch conversion\<close>

lemma Note_init_never_raises: "Note_init m n l = Inr (mk_note m n l)"
  unfolding Note_init_def MIDI_MIN_def MIDI_MAX_def by auto

text \<open>
  Claim C2. A \<open>Note\<close> is to be rejected for every midi value outside \<open>[40, 76]\<close>. The
  guard of the constructor is a disjunction, which every integer satisfies, so the
  constructor accepts the midi value 39: the branch that raises is dead.
\<close>

theorem Note_init_accepts_39: "Note_init 39 ''D#'' (- 6) = Inr (mk_note 39 ''D#'' (- 6))"
  by (simp add: Note_init_def MIDI_MIN_def MIDI_MAX_def)

lemma py_round_of_int: "py_round (real_of_int m) = m"
  unfolding py_round_def by (auto; linarith)

lemma midi_to_freq_pos: "0 < midi_to_freq m"
  by (simp add: midi_to_freq_def)

lemma semitones_of_midi_to_freq: "69 + 12 * log 2 (midi_to_freq m / 440) = real_of_int m"
proof -
  have "log 2 (midi_to_freq m / 440) = (real_of_int m - 69) / 12"
    by (simp add: midi_to_freq_def)
  then show ?thesis by simp
qed

text \<open>
  Claim C4. For every integer midi value in \<open>[40, 76]\<close>, converting it to a frequency and
  the frequency back to a midi value returns the value, over the real numbers.
\<close>

theorem midi_round_trip:
  "40 \<le> m \<Longrightarrow> m \<le> 76 \<Longrightarrow> freq_to_midi (midi_to_freq m) = Inr m"
  using midi_to_freq_pos [of m]
  by (simp add: freq_to_midi_def semitones_of_midi_to_freq py_round_of_int)

theorem midi_round_trip_witness:
  "(40::int) \<le> 69 \<and> (69::int) \<le> 76 \<and> freq_to_midi (midi_to_freq 69) = Inr 69"
  using midi_round_trip [of 69] by simp

section \<open>The attempt's state machine\<close>

text \<open>
  Claim C6. Each transition of a practice attempt happens at most once: a second start
  time (the start time already non-zero), a success time not after the start time or a
  second success time, a second completion and a second request to terminate all raise
  \<open>ValueError\<close>, and the attempt after the failed call is the attempt before it.
\<close>

theorem NotePractice_single_transitions:
  "(start_timestamp p \<noteq> 0 \<longrightarrow> set_start_timestamp v p = (Inl ValueError, p))
   \<and> (t \<le> start_timestamp p \<or> success_timestamp p \<noteq> 0
        \<longrightarrow> set_success_timestamp t p = (Inl ValueError, p))
   \<and> (complete_flag p \<longrightarrow> set_complete True p = (Inl ValueError, p))
   \<and> (terminate_flag p \<longrightarrow> set_terminate True p = (Inl ValueError, p))"
  by (simp add: set_start_timestamp_def set_success_timestamp_def set_complete_def
        set_terminate_def)

theorem NotePractice_single_transitions_witness:
  "start_timestamp finished_attempt \<noteq> 0
   \<and> set_start_timestamp 9 finished_attempt = (Inl ValueError, finished_attempt)
   \<and> (3 \<le> start_timestamp finished_attempt \<or> success_timestamp finished_attempt \<noteq> 0)
   \<and> set_success_timestamp 3 finished_attempt = (Inl ValueError, finished_attempt)
   \<and> complete_flag finished_attempt
   \<and> set_complete True finished_attempt = (Inl ValueError, finished_attempt)
   \<and> terminate_flag finished_attempt
   \<and> set_terminate True finished_attempt = (Inl ValueError, finished_attempt)"
  using NotePractice_single_transitions [of finished_attempt 9 3]
  by (simp add: finished_attempt_def NotePractice_init_def)

text \<open>The first use of each transition succeeds, so the guards do not reject everything.\<close>

lemma NotePractice_first_transitions:
  "set_start_timestamp 1 (NotePractice_init n)
     = (Inr (), (NotePractice_init n)\<lparr>start_timestamp := 1\<rparr>)"
  "set_complete True (NotePractice_init n)
     = (Inr (), (NotePractice_init n)\<lparr>complete_flag := True\<rparr>)"
  "set_terminate True (NotePractice_init n)
     = (Inr (), (NotePractice_init n)\<lparr>terminate_flag := True\<rparr>)"
  "set_success_timestamp 2 listening_attempt
     = (Inr (), listening_attempt\<lparr>success_timestamp := 2\<rparr>)"
  by (simp_all add: set_start_timestamp_def set_complete_def set_terminate_def
        set_success_timestamp_def NotePractice_init_def listening_attempt_def)

section \<open>Selecting the topic\<close>

lemma length_catalog: "length catalog = 18"
  by (simp add: catalog_def)

lemma set_current_topic_above:
  "int (length (topics s)) \<le> v \<Longrightarrow> \<exists>e. set_current_topic v s = (Inl e, s)"
  by (auto simp: set_current_topic_def py_getitem_def)

lemma set_current_topic_in_bounds:
  "0 \<le> v \<Longrightarrow> v < int (length (topics s)) \<Longrightarrow>
   set_current_topic v s = (Inr (), s\<lparr>topic := topics s ! nat v, topic_changed := True\<rparr>)"
  by (simp add: set_current_topic_def py_getitem_def)

text \<open>
  Claim C3. An index outside the catalog is to be rejected with the trainer unchanged.
  The guard of the setter has no lower bound and the subscript accepts a negative index,
  so the index \<open>-1\<close> is accepted on the fresh trainer: it selects the last topic of the
  catalog and marks the topic as changed.
\<close>

theorem set_current_topic_accepts_minus_one:
  "set_current_topic (- 1) Trainer_init
     = (Inr (), Trainer_init\<lparr>topic := topic_17, topic_changed := True\<rparr>)"
  by (simp add: set_current_topic_def py_getitem_def Trainer_init_def catalog_def)

section \<open>The noise window and the detection gate\<close>

lemma process_reading_window:
  assumes "noise_levels s \<noteq> []"
  shows "noise_levels (fst (snd (process_reading f peak now (s, p))))
           = tl (noise_levels s) @ [peak]"
  using assms
  by (cases "noise_levels s")
     (auto simp: process_reading_def Let_def split: sum.splits prod.splits)

lemma process_reading_threshold:
  assumes "noise_levels s \<noteq> []"
  shows "noise_threshold (fst (snd (process_reading f peak now (s, p))))
           = average (take 10 (sort (tl (noise_levels s) @ [peak]))) * threshold_multiplier s"
  using assms
  by (cases "noise_levels s")
     (auto simp: process_reading_def Let_def split: sum.splits prod.splits)

lemma process_reading_multiplier:
  "threshold_multiplier (fst (snd (process_reading f peak now (s, p)))) = threshold_multiplier s"
  by (cases "noise_levels s")
     (auto simp: process_reading_def Let_def split: sum.splits prod.splits)

lemma set_success_timestamp_heard:
  "num_notes_heard (snd (set_success_timestamp v p)) = num_notes_heard p"
  by (simp add: set_success_timestamp_def)

lemma set_complete_heard: "num_notes_heard (snd (set_complete v p)) = num_notes_heard p"
  by (simp add: set_complete_def)

lemma process_reading_heard:
  assumes "noise_levels s \<noteq> []"
  shows "num_notes_heard (snd (snd (process_reading f peak now (s, p))))
     = (if peak > average (take 10 (sort (tl (noise_levels s) @ [peak]))) * threshold_multiplier s
        then num_notes_heard p + 1 else num_notes_heard p)"
  using assms
    set_success_timestamp_heard [of now "p\<lparr>num_notes_heard := Suc (num_notes_heard p)\<rparr>"]
    set_complete_heard [of True]
  apply (cases "noise_levels s")
   apply (auto simp: process_reading_def Let_def split: sum.splits prod.splits)
   apply (metis snd_conv)+
  done

lemma sort_first_window:
  "sort (replicate 49 (100000::real) @ [120000]) = replicate 49 100000 @ [120000]"
  by (rule sorted_sort_id) (simp add: sorted_append)

text \<open>
  Claim C1, as stated: the gate compares the reading with the threshold as it stood
  before the reading entered the window. On the fresh trainer that threshold is 100000
  and the reading 120000 exceeds it, yet the loop body does not count the reading as a
  note heard: the threshold it compares with is the one it has just recomputed, 130000.
\<close>

theorem gate_previous_threshold_counterexample:
  "120000 > noise_threshold Trainer_init
   \<and> num_notes_heard (snd (snd (process_reading 110 120000 2 (Trainer_init, listening_attempt))))
       = num_notes_heard listening_attempt"
  by (simp add: process_reading_heard Trainer_init_def sort_first_window average_def
        THRESHOLD_MULTIPLIER_DEFAULT_def sum_list_replicate)

text \<open>
  Claim C1, amended. In every pass of the capture loop the reading is first folded into
  the window and the threshold recomputed from that window; the gate compares the reading
  with this new threshold, which is derived from a window that contains the reading.
\<close>

theorem gate_uses_updated_threshold:
  assumes "noise_levels s \<noteq> []"
  shows "noise_threshold (fst (snd (process_reading f peak now (s, p))))
           = average (take 10 (sort (tl (noise_levels s) @ [peak]))) * threshold_multiplier s
         \<and> num_notes_heard (snd (snd (process_reading f peak now (s, p))))
           = (if peak > noise_threshold (fst (snd (process_reading f peak now (s, p))))
              then num_notes_heard p + 1 else num_notes_heard p)"
  using assms by (simp add: process_reading_threshold process_reading_heard)

theorem gate_uses_updated_threshold_witness:
  "noise_levels Trainer_init \<noteq> []
   \<and> noise_threshold (fst (snd (process_reading 110 120000 2 (Trainer_init, listening_attempt))))
       = 130000
   \<and> num_notes_heard (snd (snd (process_reading 110 120000 2 (Trainer_init, listening_attempt))))
       = 0"
  using gate_uses_updated_threshold [of Trainer_init 110 120000 2 listening_attempt]
  by (simp add: Trainer_init_def sort_first_window average_def
        THRESHOLD_MULTIPLIER_DEFAULT_def sum_list_replicate listening_attempt_def
        NotePractice_init_def)

text \<open>
  Claim C5. Every reading processed evicts the oldest entry of the window and is appended
  at its back, so a window of 50 entries stays at 50; the threshold after the update is
  the mean of the 10 smallest entries of the new window times the threshold multiplier;
  and the window keeps its arrival order, the sort having worked on a copy.
\<close>

theorem noise_window_update:
  assumes "length (noise_levels s) = 50"
  shows "noise_levels (fst (snd (process_reading f peak now (s, p))))
           = tl (noise_levels s) @ [peak]
         \<and> length (noise_levels (fst (snd (process_reading f peak now (s, p))))) = 50
         \<and> noise_threshold (fst (snd (process_reading f peak now (s, p))))
           = sum_list (take 10 (sort (noise_levels (fst (snd (process_reading f peak now (s, p))))))) / 10
             * threshold_multiplier (fst (snd (process_reading f peak now (s, p))))"
proof -
  from assms have ne: "noise_levels s \<noteq> []" by auto
  have len: "length (tl (noise_levels s) @ [peak]) = 50"
    using assms by simp
  then have "length (take 10 (sort (tl (noise_levels s) @ [peak]))) = 10"
    by simp
  then have "average (take 10 (sort (tl (noise_levels s) @ [peak])))
               = sum_list (take 10 (sort (tl (noise_levels s) @ [peak]))) / 10"
    unfolding average_def by simp
  with ne len show ?thesis
    by (simp add: process_reading_window process_reading_threshold process_reading_multiplier)
qed

theorem noise_window_update_witness:
  "length (noise_levels Trainer_init) = 50
   \<and> noise_levels (fst (snd (process_reading 110 120000 2 (Trainer_init, listening_attempt))))
       = replicate 49 100000 @ [120000]
   \<and> noise_threshold (fst (snd (process_reading 110 120000 2 (Trainer_init, listening_attempt))))
       = 130000"
proof -
  let ?s' = "fst (snd (process_reading 110 120000 2 (Trainer_init, listening_attempt)))"
  have len: "length (noise_levels Trainer_init) = 50"
    by (simp add: Trainer_init_def)
  have rest: "tl (noise_levels Trainer_init) = replicate 49 100000"
    by (simp add: Trainer_init_def)
  have mult: "threshold_multiplier ?s' = 13 / 10"
    by (simp add: process_reading_multiplier Trainer_init_def THRESHOLD_MULTIPLIER_DEFAULT_def)
  note upd = noise_window_update [OF len, of 110 120000 2 listening_attempt]
  from upd have window: "noise_levels ?s' = replicate 49 100000 @ [120000]"
    by (simp only: rest)
  from upd have "noise_threshold ?s'
      = sum_list (take 10 (sort (noise_levels ?s'))) / 10 * threshold_multiplier ?s'"
    by blast
  then have "noise_threshold ?s' = 130000"
    by (simp add: window mult sort_first_window sum_list_replicate)
  with len window show ?thesis by blast
qed

section \<open>Properties of the note selection\<close>

text \<open>
  The lemmas of this section describe \<^verbatim>\<open>new_note_practice\<close> on a trainer that satisfies
  the invariant: it never raises, it keeps the invariant, and it never picks the previous
  target. The random draws are arbitrary throughout.
\<close>

subsection \<open>Moving a note from the queue into play\<close>

lemma list_index_mem:
  "x \<in> set xs \<Longrightarrow>
   \<exists>i. list_index xs x = Inr i \<and> i < length xs \<and> take i xs @ drop (Suc i) xs = remove1 x xs"
proof (induction xs)
  case Nil
  then show ?case by simp
next
  case (Cons y ys)
  show ?case
  proof (cases "y = x")
    case True
    then show ?thesis by simp
  next
    case False
    with Cons.prems have "x \<in> set ys" by simp
    from Cons.IH [OF this] obtain i where
      "list_index ys x = Inr i" "i < length ys" "take i ys @ drop (Suc i) ys = remove1 x ys"
      by blast
    with False show ?thesis by (simp add: bind_err_def)
  qed
qed

lemma move_note_eq:
  assumes "notes_in_queue s \<noteq> []"
  shows "move_note d s =
     Inr (s\<lparr>notes_in_play := notes_in_play s @ [notes_in_queue s ! (d mod length (notes_in_queue s))],
           notes_in_queue := remove1 (notes_in_queue s ! (d mod length (notes_in_queue s)))
                               (notes_in_queue s)\<rparr>)"
proof -
  let ?r = "notes_in_queue s ! (d mod length (notes_in_queue s))"
  from assms have mem: "?r \<in> set (notes_in_queue s)" by simp
  from list_index_mem [OF mem] obtain i where
    i: "list_index (notes_in_queue s) ?r = Inr i" "i < length (notes_in_queue s)"
       "take i (notes_in_queue s) @ drop (Suc i) (notes_in_queue s) = remove1 ?r (notes_in_queue s)"
    by blast
  with assms show ?thesis
    by (simp add: move_note_def choice_def bind_err_def list_del_def)
qed

subsection \<open>The topics of the catalog\<close>

lemma catalog_topics:
  "list_all (\<lambda>t. distinct (map midi (topic_notes t)) \<and> 8 \<le> length (topic_notes t)) catalog"
  by (simp add: catalog_def StringTopic_def mk_note_def
        topic_0_def topic_1_def topic_2_def topic_3_def topic_4_def topic_5_def
        topic_6_def topic_7_def topic_8_def topic_9_def topic_10_def topic_11_def
        topic_12_def topic_13_def topic_14_def topic_15_def topic_16_def topic_17_def)

lemma catalog_distinct: "t \<in> set catalog \<Longrightarrow> distinct (topic_notes t)"
  using catalog_topics by (auto simp: list_all_iff distinct_map)

lemma catalog_length: "t \<in> set catalog \<Longrightarrow> 8 \<le> length (topic_notes t)"
  using catalog_topics by (auto simp: list_all_iff)

subsection \<open>Picking the note\<close>

lemma move_note_props:
  assumes "notes_in_queue s \<noteq> []"
  shows "\<exists>r \<in> set (notes_in_queue s).
           move_note d s = Inr (s\<lparr>notes_in_play := notes_in_play s @ [r],
                                   notes_in_queue := remove1 r (notes_in_queue s)\<rparr>)"
proof -
  from assms have "notes_in_queue s ! (d mod length (notes_in_queue s)) \<in> set (notes_in_queue s)"
    by simp
  with move_note_eq [OF assms, of d] show ?thesis by blast
qed

lemma map_fst_bump_times: "map fst (bump_times t nt) = map fst nt"
  by (induction t nt rule: bump_times.induct) auto

lemma map_fst_foldl_bump_times:
  "map fst (foldl (\<lambda>nt p. bump_times (target_note p) nt) nt ps) = map fst nt"
  by (induction ps arbitrary: nt) (auto simp: map_fst_bump_times)

lemma mset_notes_sorted:
  "mset (notes_sorted_by_times_practiced s) = mset (notes_in_play s)"
proof -
  let ?nt = "foldl (\<lambda>nt p. bump_times (target_note p) nt) (map (\<lambda>n. (n, 0)) (notes_in_play s))
               (take (length (notes_in_play s) * 5) (rev (practiced_notes s)))"
  have "mset (map fst (sort_key snd ?nt)) = image_mset fst (mset (sort_key snd ?nt))"
    by simp
  also have "\<dots> = mset (map fst ?nt)" by simp
  also have "map fst ?nt = notes_in_play s"
    by (simp add: map_fst_foldl_bump_times comp_def)
  finally show ?thesis
    by (simp add: notes_sorted_by_times_practiced_def Let_def)
qed

lemma pick_from_rest:
  assumes d: "distinct ns0" and t: "t \<in> set ns0" and len: "2 \<le> length ns0"
  shows "list_remove t ns0 = Inr (remove1 t ns0)"
    and "remove1 t ns0 \<noteq> []"
    and "t \<notin> set (remove1 t ns0)"
    and "set (remove1 t ns0) \<subseteq> set ns0"
proof -
  show "list_remove t ns0 = Inr (remove1 t ns0)" using t by (simp add: list_remove_def)
  have "length (remove1 t ns0) = length ns0 - 1" using t by (simp add: length_remove1)
  with len show "remove1 t ns0 \<noteq> []" by auto
  show "t \<notin> set (remove1 t ns0)" using d by simp
  show "set (remove1 t ns0) \<subseteq> set ns0" by (rule set_remove1_subset)
qed

lemma randint_getitem:
  assumes "ns \<noteq> []"
  shows "\<exists>r \<in> set ns.
     bind_err (randint 0 (min (int (length ns) - 1) 2) pd) (\<lambda>i. py_getitem ns i) = Inr r"
proof -
  define hi where "hi = min (int (length ns) - 1) 2"
  define i where "i = int pd mod (hi + 1)"
  from assms have "1 \<le> int (length ns)" by (cases ns) auto
  then have hi: "0 \<le> hi" "hi < int (length ns)" unfolding hi_def by linarith+
  from hi(1) have "0 < hi + 1" by linarith
  then have i: "0 \<le> i" "i < hi + 1"
    unfolding i_def by (rule pos_mod_sign, rule pos_mod_bound)
  from hi(1) have "\<not> hi < 0" by linarith
  then have r: "randint 0 hi pd = Inr i" by (simp add: randint_def i_def)
  from i hi(2) have "i < int (length ns)" by linarith
  with i(1) have g: "py_getitem ns i = Inr (ns ! nat i)" and "nat i < length ns"
    by (simp_all add: py_getitem_def)
  then have mem: "ns ! nat i \<in> set ns" by simp
  have "bind_err (randint 0 hi pd) (\<lambda>i. py_getitem ns i) = Inr (ns ! nat i)"
    by (simp add: r g bind_err_def)
  with mem show ?thesis unfolding hi_def by blast
qed

lemma pick_note_props:
  assumes d: "distinct (notes_in_play s)" and len: "2 \<le> length (notes_in_play s)"
    and t: "practiced_notes s \<noteq> [] \<longrightarrow> target_note (last (practiced_notes s)) \<in> set (notes_in_play s)"
  shows "\<exists>r \<in> set (notes_in_play s). pick_note pd s = Inr r
           \<and> (practiced_notes s \<noteq> [] \<longrightarrow> r \<noteq> target_note (last (practiced_notes s)))"
proof -
  let ?t = "target_note (last (practiced_notes s))"
  consider (many) "4 \<le> length (practiced_notes s)"
    | (few) "0 < length (practiced_notes s)" "length (practiced_notes s) < 4"
    | (none) "practiced_notes s = []"
    by (meson length_greater_0_conv not_le)
  then show ?thesis
  proof cases
    case many
    then have ne: "practiced_notes s \<noteq> []" by auto
    let ?ns0 = "notes_sorted_by_times_practiced s"
    have ms: "mset ?ns0 = mset (notes_in_play s)" by (rule mset_notes_sorted)
    then have d0: "distinct ?ns0" and s0: "set ?ns0 = set (notes_in_play s)"
      and l0: "length ?ns0 = length (notes_in_play s)"
      using d mset_eq_imp_distinct_iff [OF ms] mset_eq_setD [OF ms] mset_eq_length [OF ms]
      by simp_all
    from t ne s0 have tin: "?t \<in> set ?ns0" by simp
    from len l0 have l2: "2 \<le> length ?ns0" by simp
    note rest = pick_from_rest [OF d0 tin l2]
    from randint_getitem [OF rest(2), of pd] obtain r where
      r: "r \<in> set (remove1 ?t ?ns0)"
         "bind_err (randint 0 (min (int (length (remove1 ?t ?ns0)) - 1) 2) pd)
            (\<lambda>i. py_getitem (remove1 ?t ?ns0) i) = Inr r"
      by blast
    have "pick_note pd s = Inr r"
      using many r(2) rest(1) by (simp add: pick_note_def bind_err_def)
    moreover have "r \<in> set (notes_in_play s)" using r(1) rest(4) s0 by blast
    moreover have "r \<noteq> ?t" using r(1) rest(3) by blast
    ultimately show ?thesis by blast
  next
    case few
    then have ne: "practiced_notes s \<noteq> []" by auto
    from t ne have tin: "?t \<in> set (notes_in_play s)" by simp
    note rest = pick_from_rest [OF d tin len]
    let ?ns = "remove1 ?t (notes_in_play s)"
    let ?r = "?ns ! (pd mod length ?ns)"
    from rest(2) have rin: "?r \<in> set ?ns" by simp
    have "pick_note pd s = Inr ?r"
      using few rest(1,2) by (simp add: pick_note_def bind_err_def choice_def)
    moreover have "?r \<in> set (notes_in_play s)" using rin rest(4) by blast
    moreover have "?r \<noteq> ?t" using rin rest(3) by auto
    ultimately show ?thesis by blast
  next
    case none
    from len have ne: "notes_in_play s \<noteq> []" by auto
    then have "notes_in_play s ! (pd mod length (notes_in_play s)) \<in> set (notes_in_play s)"
      by simp
    with none ne show ?thesis by (simp add: pick_note_def choice_def)
  qed
qed

subsection \<open>The reset and the incremental addition\<close>

lemma seed_three_notes:
  assumes "3 \<le> length q"
  shows "\<exists>r0 r1 r2. r0 \<in> set q \<and> r1 \<in> set (remove1 r0 q) \<and> r2 \<in> set (remove1 r1 (remove1 r0 q))
     \<and> bind_err (move_note (qd 0) (b\<lparr>notes_in_queue := q, notes_in_play := []\<rparr>))
           (\<lambda>s2. bind_err (move_note (qd 1) s2) (move_note (qd 2)))
         = Inr (b\<lparr>notes_in_queue := remove1 r2 (remove1 r1 (remove1 r0 q)),
                 notes_in_play := [r0, r1, r2]\<rparr>)"
proof -
  let ?b0 = "b\<lparr>notes_in_queue := q, notes_in_play := []\<rparr>"
  from assms have "notes_in_queue ?b0 \<noteq> []" by auto
  from move_note_props [OF this, of "qd 0"] obtain r0 where
    r0: "r0 \<in> set q" "move_note (qd 0) ?b0 = Inr (b\<lparr>notes_in_queue := remove1 r0 q, notes_in_play := [r0]\<rparr>)"
    by auto
  let ?b1 = "b\<lparr>notes_in_queue := remove1 r0 q, notes_in_play := [r0]\<rparr>"
  have l1: "length (remove1 r0 q) = length q - 1" using r0(1) by (simp add: length_remove1)
  with assms have "notes_in_queue ?b1 \<noteq> []" by auto
  from move_note_props [OF this, of "qd 1"] obtain r1 where
    r1: "r1 \<in> set (remove1 r0 q)"
        "move_note (qd 1) ?b1
           = Inr (b\<lparr>notes_in_queue := remove1 r1 (remove1 r0 q), notes_in_play := [r0, r1]\<rparr>)"
    by auto
  let ?b2 = "b\<lparr>notes_in_queue := remove1 r1 (remove1 r0 q), notes_in_play := [r0, r1]\<rparr>"
  have "length (remove1 r1 (remove1 r0 q)) = length q - 2"
    using r1(1) l1 by (simp add: length_remove1)
  with assms have "notes_in_queue ?b2 \<noteq> []" by auto
  from move_note_props [OF this, of "qd 2"] obtain r2 where
    r2: "r2 \<in> set (remove1 r1 (remove1 r0 q))"
        "move_note (qd 2) ?b2
           = Inr (b\<lparr>notes_in_queue := remove1 r2 (remove1 r1 (remove1 r0 q)),
                   notes_in_play := [r0, r1, r2]\<rparr>)"
    by auto
  from r0 r1 r2 show ?thesis by (auto simp: bind_err_def)
qed

lemma add_mset_remove1: "x \<in> set xs \<Longrightarrow> add_mset x (mset (remove1 x xs)) = mset xs"
  by simp

lemma mset_seed_three:
  assumes "r0 \<in> set q" "r1 \<in> set (remove1 r0 q)" "r2 \<in> set (remove1 r1 (remove1 r0 q))"
  shows "mset ([r0, r1, r2] @ remove1 r2 (remove1 r1 (remove1 r0 q))) = mset q"
proof -
  have "mset ([r0, r1, r2] @ remove1 r2 (remove1 r1 (remove1 r0 q)))
          = add_mset r0 (add_mset r1 (add_mset r2 (mset (remove1 r2 (remove1 r1 (remove1 r0 q))))))"
    by (simp only: mset.simps mset_append append.simps union_mset_add_mset_left empty_neutral)
  also have "\<dots> = add_mset r0 (add_mset r1 (mset (remove1 r1 (remove1 r0 q))))"
    by (simp only: add_mset_remove1 [OF assms(3)])
  also have "\<dots> = add_mset r0 (mset (remove1 r0 q))"
    by (simp only: add_mset_remove1 [OF assms(2)])
  also have "\<dots> = mset q"
    by (simp only: add_mset_remove1 [OF assms(1)])
  finally show ?thesis .
qed

lemma update_notes_reset:
  assumes inv: "trainer_inv s" and ch: "topic_changed s \<or> add_notes_method_changed s"
  shows "\<exists>pl qu. update_notes qd s
            = Inr (s\<lparr>topic_changed := False, add_notes_method_changed := False,
                     practiced_notes := [], notes_in_queue := qu, notes_in_play := pl\<rparr>)
          \<and> mset (pl @ qu) = mset (topic_notes (topic s)) \<and> 3 \<le> length pl
          \<and> (add_notes_method s = ADD_NOTES_INCREMENTALLY \<longrightarrow> length pl = 3)
          \<and> (add_notes_method s = ADD_NOTES_ALL_AT_ONCE \<longrightarrow> qu = [])"
proof -
  let ?b = "s\<lparr>topic_changed := False, add_notes_method_changed := False, practiced_notes := []\<rparr>"
  let ?tn = "topic_notes (topic s)"
  from inv have len: "8 \<le> length ?tn" by (simp add: trainer_inv_def catalog_length)
  from inv consider (inc) "add_notes_method s = ADD_NOTES_INCREMENTALLY"
    | (all) "add_notes_method s = ADD_NOTES_ALL_AT_ONCE"
    by (auto simp: trainer_inv_def)
  then show ?thesis
  proof cases
    case inc
    from len have "3 \<le> length ?tn" by simp
    from seed_three_notes [OF this, of qd ?b] obtain r0 r1 r2 where
      r: "r0 \<in> set ?tn" "r1 \<in> set (remove1 r0 ?tn)" "r2 \<in> set (remove1 r1 (remove1 r0 ?tn))"
      and e: "bind_err (move_note (qd 0) (?b\<lparr>notes_in_queue := ?tn, notes_in_play := []\<rparr>))
           (\<lambda>s2. bind_err (move_note (qd 1) s2) (move_note (qd 2)))
         = Inr (?b\<lparr>notes_in_queue := remove1 r2 (remove1 r1 (remove1 r0 ?tn)),
                 notes_in_play := [r0, r1, r2]\<rparr>)"
      by blast
    have "update_notes qd s
            = Inr (?b\<lparr>notes_in_queue := remove1 r2 (remove1 r1 (remove1 r0 ?tn)),
                 notes_in_play := [r0, r1, r2]\<rparr>)"
      using ch inc e by (simp add: update_notes_def Let_def)
    moreover note mset_seed_three [OF r]
    moreover have "ADD_NOTES_INCREMENTALLY \<noteq> ADD_NOTES_ALL_AT_ONCE"
      by (simp add: ADD_NOTES_INCREMENTALLY_def ADD_NOTES_ALL_AT_ONCE_def)
    ultimately show ?thesis using inc by (intro exI [of _ "[r0, r1, r2]"] exI) auto
  next
    case all
    have ne: "ADD_NOTES_ALL_AT_ONCE \<noteq> ADD_NOTES_INCREMENTALLY"
      by (simp add: ADD_NOTES_INCREMENTALLY_def ADD_NOTES_ALL_AT_ONCE_def)
    have "update_notes qd s = Inr (?b\<lparr>notes_in_queue := [], notes_in_play := ?tn\<rparr>)"
      using ch all ne by (simp add: update_notes_def Let_def)
    with len all ne show ?thesis by auto
  qed
qed

lemma update_notes_keep:
  assumes inv: "trainer_inv s" and ch: "\<not> topic_changed s" "\<not> add_notes_method_changed s"
  shows "update_notes qd s =
     (if practiced_notes s \<noteq> []
         \<and> int (length (practiced_notes s)) mod add_notes_increment s = 0
         \<and> notes_in_queue s \<noteq> []
      then move_note (qd 0) s else Inr s)"
proof -
  from inv have "add_notes_increment s \<noteq> 0" by (auto simp: trainer_inv_def)
  with ch show ?thesis by (simp add: update_notes_def)
qed

lemma consistent_distinct:
  assumes "topic s \<in> set catalog" "consistent s"
  shows "distinct (notes_in_play s @ notes_in_queue s)"
proof -
  from assms(2) have "mset (notes_in_play s @ notes_in_queue s) = mset (topic_notes (topic s))"
    by (simp add: consistent_def)
  from mset_eq_imp_distinct_iff [OF this] catalog_distinct [OF assms(1)] show ?thesis by simp
qed

lemma update_notes_props:
  assumes inv: "trainer_inv s"
  shows "\<exists>s1. update_notes qd s = Inr s1 \<and> trainer_inv s1 \<and> consistent s1
           \<and> \<not> topic_changed s1 \<and> \<not> add_notes_method_changed s1 \<and> topic s1 = topic s
           \<and> practiced_notes s1
               = (if topic_changed s \<or> add_notes_method_changed s then [] else practiced_notes s)"
proof (cases "topic_changed s \<or> add_notes_method_changed s")
  case True
  from update_notes_reset [OF inv True, of qd] obtain pl qu where
    u: "update_notes qd s
          = Inr (s\<lparr>topic_changed := False, add_notes_method_changed := False,
                   practiced_notes := [], notes_in_queue := qu, notes_in_play := pl\<rparr>)"
    and m: "mset (pl @ qu) = mset (topic_notes (topic s))" and l: "3 \<le> length pl"
    by blast
  let ?s1 = "s\<lparr>topic_changed := False, add_notes_method_changed := False,
                   practiced_notes := [], notes_in_queue := qu, notes_in_play := pl\<rparr>"
  have c: "consistent ?s1" using m l by (simp add: consistent_def)
  then have "trainer_inv ?s1" using inv by (simp add: trainer_inv_def)
  with u c True show ?thesis by simp
next
  case False
  then have ch: "\<not> topic_changed s" "\<not> add_notes_method_changed s" by auto
  from inv ch have c: "consistent s" by (simp add: trainer_inv_def)
  show ?thesis
  proof (cases "practiced_notes s \<noteq> []
         \<and> int (length (practiced_notes s)) mod add_notes_increment s = 0
         \<and> notes_in_queue s \<noteq> []")
    case True
    then have q: "notes_in_queue s \<noteq> []" by simp
    from move_note_props [OF q, of "qd 0"] obtain r where
      r: "r \<in> set (notes_in_queue s)"
         "move_note (qd 0) s = Inr (s\<lparr>notes_in_play := notes_in_play s @ [r],
                                      notes_in_queue := remove1 r (notes_in_queue s)\<rparr>)"
      by blast
    let ?s1 = "s\<lparr>notes_in_play := notes_in_play s @ [r],
                   notes_in_queue := remove1 r (notes_in_queue s)\<rparr>"
    have u: "update_notes qd s = Inr ?s1"
      using update_notes_keep [OF inv ch, of qd] True r(2) by simp
    have "mset (notes_in_play ?s1 @ notes_in_queue ?s1) = mset (notes_in_play s @ notes_in_queue s)"
      using r(1) by simp
    with c have c1: "consistent ?s1" by (auto simp: consistent_def)
    then have "trainer_inv ?s1" using inv by (simp add: trainer_inv_def)
    with u c1 ch show ?thesis by simp
  next
    case False
    then have "update_notes qd s = Inr s"
      using update_notes_keep [OF inv ch, of qd] by auto
    with inv c ch show ?thesis by simp
  qed
qed

lemma new_note_practice_props:
  assumes inv: "trainer_inv s"
  shows "\<exists>s1 r. update_notes qd s = Inr s1 \<and> pick_note pd s1 = Inr r
      \<and> new_note_practice qd pd s
           = Inr (s1\<lparr>practiced_notes := practiced_notes s1 @ [NotePractice_init r]\<rparr>)
      \<and> trainer_inv s1 \<and> consistent s1
      \<and> \<not> topic_changed s1 \<and> \<not> add_notes_method_changed s1 \<and> topic s1 = topic s
      \<and> practiced_notes s1
           = (if topic_changed s \<or> add_notes_method_changed s then [] else practiced_notes s)
      \<and> r \<in> set (notes_in_play s1)
      \<and> (practiced_notes s1 \<noteq> [] \<longrightarrow> r \<noteq> target_note (last (practiced_notes s1)))"
proof -
  from update_notes_props [OF inv, of qd] obtain s1 where
    u: "update_notes qd s = Inr s1" and i1: "trainer_inv s1" and c1: "consistent s1"
    and f1: "\<not> topic_changed s1" "\<not> add_notes_method_changed s1" "topic s1 = topic s"
    and p1: "practiced_notes s1
               = (if topic_changed s \<or> add_notes_method_changed s then [] else practiced_notes s)"
    by blast
  from i1 have "topic s1 \<in> set catalog" by (simp add: trainer_inv_def)
  from consistent_distinct [OF this c1] have d: "distinct (notes_in_play s1)" by simp
  from c1 have l: "2 \<le> length (notes_in_play s1)" by (simp add: consistent_def)
  have t: "practiced_notes s1 \<noteq> []
             \<longrightarrow> target_note (last (practiced_notes s1)) \<in> set (notes_in_play s1)"
  proof
    assume "practiced_notes s1 \<noteq> []"
    then have "target_note (last (practiced_notes s1)) \<in> set (map target_note (practiced_notes s1))"
      by simp
    with c1 show "target_note (last (practiced_notes s1)) \<in> set (notes_in_play s1)"
      unfolding consistent_def by blast
  qed
  from pick_note_props [OF d l t, of pd] obtain r where
    r: "r \<in> set (notes_in_play s1)" "pick_note pd s1 = Inr r"
       "practiced_notes s1 \<noteq> [] \<longrightarrow> r \<noteq> target_note (last (practiced_notes s1))"
    by blast
  have "new_note_practice qd pd s
           = Inr (s1\<lparr>practiced_notes := practiced_notes s1 @ [NotePractice_init r]\<rparr>)"
    using u r(2) by (simp add: new_note_practice_def bind_err_def)
  with u i1 c1 f1 p1 r show ?thesis by blast
qed

lemma target_note_init: "target_note (NotePractice_init r) = r"
  by (simp add: NotePractice_init_def)

lemma new_note_practice_inv:
  assumes inv: "trainer_inv s" and n: "new_note_practice qd pd s = Inr s'"
  shows "trainer_inv s'" and "consistent s'"
    and "\<not> topic_changed s'" and "\<not> add_notes_method_changed s'"
proof -
  from new_note_practice_props [OF inv, of qd pd] n obtain s1 r where
    s': "s' = s1\<lparr>practiced_notes := practiced_notes s1 @ [NotePractice_init r]\<rparr>"
    and i1: "trainer_inv s1" and c1: "consistent s1"
    and f1: "\<not> topic_changed s1" "\<not> add_notes_method_changed s1"
    and r: "r \<in> set (notes_in_play s1)"
    by auto
  from c1 r show c: "consistent s'"
    unfolding s' by (simp add: consistent_def target_note_init)
  with i1 show "trainer_inv s'" unfolding s' by (simp add: trainer_inv_def)
  from f1 show "\<not> topic_changed s'" "\<not> add_notes_method_changed s'" unfolding s' by simp_all
qed

subsection \<open>What the setters and the capture thread leave unchanged\<close>

lemma process_reading_trainer:
  "\<exists>w t. fst (snd (process_reading f peak now (s, p))) = s\<lparr>noise_levels := w, noise_threshold := t\<rparr>
         \<and> length w = length (noise_levels s)"
proof (cases "noise_levels s")
  case Nil
  then have "fst (snd (process_reading f peak now (s, p))) = s"
    by (simp add: process_reading_def)
  moreover have "s = s\<lparr>noise_levels := [], noise_threshold := noise_threshold s\<rparr>"
    using Nil by simp
  ultimately have "fst (snd (process_reading f peak now (s, p)))
        = s\<lparr>noise_levels := [], noise_threshold := noise_threshold s\<rparr>
      \<and> length ([]::real list) = length (noise_levels s)"
    using Nil by simp
  then show ?thesis by blast
next
  case (Cons a rest)
  then have "fst (snd (process_reading f peak now (s, p)))
      = s\<lparr>noise_levels := rest @ [peak],
           noise_threshold := average (take 10 (sort (rest @ [peak]))) * threshold_multiplier s\<rparr>"
    by (auto simp: process_reading_def Let_def split: sum.splits prod.splits)
  moreover have "length (rest @ [peak]) = length (noise_levels s)" using Cons by simp
  ultimately show ?thesis by blast
qed

lemma set_success_timestamp_target:
  "target_note (snd (set_success_timestamp v p)) = target_note p"
  by (simp add: set_success_timestamp_def)

lemma set_complete_target: "target_note (snd (set_complete v p)) = target_note p"
  by (simp add: set_complete_def)

lemma set_start_timestamp_target:
  "target_note (snd (set_start_timestamp v p)) = target_note p"
  by (simp add: set_start_timestamp_def)

lemma set_terminate_target: "target_note (snd (set_terminate v p)) = target_note p"
  by (simp add: set_terminate_def)

lemma process_reading_target:
  "target_note (snd (snd (process_reading f peak now (s, p)))) = target_note p"
  using set_success_timestamp_target [of now "p\<lparr>num_notes_heard := Suc (num_notes_heard p)\<rparr>"]
    set_complete_target [of True]
  apply (cases "noise_levels s")
   apply (auto simp: process_reading_def Let_def split: sum.splits prod.splits)
   apply (metis snd_conv)+
  done

lemma trainer_inv_noise:
  "trainer_inv s \<Longrightarrow> length w = 50 \<Longrightarrow> trainer_inv (s\<lparr>noise_levels := w, noise_threshold := t\<rparr>)"
  by (simp add: trainer_inv_def consistent_def)

lemma trainer_inv_targets:
  "trainer_inv s \<Longrightarrow> map target_note ps = map target_note (practiced_notes s) \<Longrightarrow>
   trainer_inv (s\<lparr>practiced_notes := ps\<rparr>)"
  by (simp add: trainer_inv_def consistent_def)

lemma map_target_update:
  "i < length ps \<Longrightarrow> target_note p' = target_note (ps ! i) \<Longrightarrow>
   map target_note (ps[i := p']) = map target_note ps"
  by (simp add: map_update list_update_same_conv)

lemma trainer_inv_init: "trainer_inv Trainer_init"
  by (simp add: trainer_inv_def Trainer_init_def catalog_def ADD_NOTES_INCREMENT_DEFAULT_def)

lemma trainer_inv_multiplier: "trainer_inv s \<Longrightarrow> trainer_inv (snd (set_threshold_multiplier v s))"
  by (simp add: set_threshold_multiplier_def trainer_inv_def consistent_def)

lemma trainer_inv_increment: "trainer_inv s \<Longrightarrow> trainer_inv (snd (set_add_notes_increment v s))"
  by (simp add: set_add_notes_increment_def trainer_inv_def consistent_def)

lemma trainer_inv_method: "trainer_inv s \<Longrightarrow> trainer_inv (snd (set_add_notes_method v s))"
  by (auto simp: set_add_notes_method_def trainer_inv_def consistent_def Let_def)

lemma py_getitem_mem: "py_getitem xs i = Inr x \<Longrightarrow> x \<in> set xs"
  by (auto simp: py_getitem_def split: if_splits)

lemma trainer_inv_topic: "trainer_inv s \<Longrightarrow> trainer_inv (snd (set_current_topic v s))"
  by (auto simp: set_current_topic_def trainer_inv_def split: sum.splits dest: py_getitem_mem)

lemma trainer_inv_kill:
  assumes "trainer_inv s"
  shows "trainer_inv (snd (kill_current_note_practice s))"
proof (cases "practiced_notes s = []")
  case True
  with assms show ?thesis by (simp add: kill_current_note_practice_def)
next
  case False
  let ?p = "snd (set_terminate True (last (practiced_notes s)))"
  have "map target_note (butlast (practiced_notes s) @ [?p])
          = map target_note (butlast (practiced_notes s) @ [last (practiced_notes s)])"
    by (simp add: set_terminate_target)
  also have "butlast (practiced_notes s) @ [last (practiced_notes s)] = practiced_notes s"
    using False by simp
  finally have "map target_note (butlast (practiced_notes s) @ [?p])
                  = map target_note (practiced_notes s)" .
  from trainer_inv_targets [OF assms this] assms False show ?thesis
    by (cases "set_terminate True (last (practiced_notes s))")
       (auto simp: kill_current_note_practice_def split: sum.splits)
qed

subsection \<open>Every reachable trainer satisfies the invariant\<close>

lemma apply_event_inv:
  assumes inv: "trainer_inv s" and e: "apply_event e s = Some s'"
  shows "trainer_inv s'"
proof (cases e)
  case (SetMultiplier v)
  with inv e show ?thesis by (auto simp: trainer_inv_multiplier)
next
  case (SetIncrement v)
  with inv e show ?thesis by (auto simp: trainer_inv_increment)
next
  case (SetMethod v)
  with inv e show ?thesis by (auto simp: trainer_inv_method)
next
  case (SetTopic v)
  with inv e show ?thesis by (auto simp: trainer_inv_topic)
next
  case Kill
  with inv e show ?thesis by (auto simp: trainer_inv_kill)
next
  case (NewNote qd pd)
  with e have "new_note_practice qd pd s = Inr s'" by (simp split: sum.splits)
  with inv show ?thesis by (rule new_note_practice_inv(1))
next
  case (CaptureStart i now)
  show ?thesis
  proof (cases "i < length (practiced_notes s)")
    case False
    with e CaptureStart inv show ?thesis by simp
  next
    case i: True
    with e CaptureStart
    have s': "s' = s\<lparr>practiced_notes :=
                  (practiced_notes s)[i := snd (set_start_timestamp now (practiced_notes s ! i))]\<rparr>"
      by simp
    from i set_start_timestamp_target [of now "practiced_notes s ! i"]
    have "map target_note ((practiced_notes s)[i := snd (set_start_timestamp now (practiced_notes s ! i))])
            = map target_note (practiced_notes s)"
      by (rule map_target_update)
    with inv show ?thesis unfolding s' by (rule trainer_inv_targets)
  qed
next
  case (Capture i f peak now)
  show ?thesis
  proof (cases "i < length (practiced_notes s)")
    case False
    with e Capture inv show ?thesis by simp
  next
    case i: True
    obtain s1 p1 where sp: "snd (process_reading f peak now (s, practiced_notes s ! i)) = (s1, p1)"
      by (cases "snd (process_reading f peak now (s, practiced_notes s ! i))")
    with e Capture i have s': "s' = s1\<lparr>practiced_notes := (practiced_notes s1)[i := p1]\<rparr>"
      by simp
    from process_reading_trainer [of f peak now s "practiced_notes s ! i"] sp
    obtain w t where s1: "s1 = s\<lparr>noise_levels := w, noise_threshold := t\<rparr>"
      and w: "length w = length (noise_levels s)"
      by auto
    from inv w have "length w = 50" by (simp add: trainer_inv_def)
    with inv have i1: "trainer_inv s1" unfolding s1 by (rule trainer_inv_noise)
    from process_reading_target [of f peak now s "practiced_notes s ! i"] sp
    have "target_note p1 = target_note (practiced_notes s ! i)" by simp
    with i have "map target_note ((practiced_notes s1)[i := p1]) = map target_note (practiced_notes s1)"
      unfolding s1 by (simp add: map_target_update)
    with i1 show ?thesis unfolding s' by (rule trainer_inv_targets)
  qed
next
  case (CaptureDetached p f peak now)
  with e have s': "s' = fst (snd (process_reading f peak now (s, p)))" by simp
  from process_reading_trainer [of f peak now s p]
  obtain w t where s1: "fst (snd (process_reading f peak now (s, p)))
                          = s\<lparr>noise_levels := w, noise_threshold := t\<rparr>"
    and w: "length w = length (noise_levels s)"
    by auto
  from inv w have "length w = 50" by (simp add: trainer_inv_def)
  with inv show ?thesis unfolding s' s1 by (rule trainer_inv_noise)
qed

lemma run_inv: "trainer_inv s \<Longrightarrow> run es s = Some s' \<Longrightarrow> trainer_inv s'"
proof (induction es arbitrary: s)
  case Nil
  then show ?case by simp
next
  case (Cons e es)
  from Cons.prems(2) obtain s1 where e: "apply_event e s = Some s1" and r: "run es s1 = Some s'"
    by (auto split: option.splits)
  from apply_event_inv [OF Cons.prems(1) e] r show ?case by (rule Cons.IH)
qed

lemma reachable_inv: "reachable s \<Longrightarrow> trainer_inv s"
  unfolding reachable_def using run_inv [OF trainer_inv_init] by blast

text \<open>In particular the noise window of a reachable trainer has its 50 entries.\<close>

lemma reachable_window_length: "reachable s \<Longrightarrow> length (noise_levels s) = 50"
  using reachable_inv [of s] by (simp add: trainer_inv_def)

lemma run_append:
  "run (es @ es') s = (case run es s of None \<Rightarrow> None | Some s1 \<Rightarrow> run es' s1)"
  by (induction es arbitrary: s) (auto split: option.splits)

lemma reachable_run:
  assumes "reachable s" and "run es s = Some s'"
  shows "reachable s'"
proof -
  from assms(1) obtain es0 where "run es0 Trainer_init = Some s"
    unfolding reachable_def by blast
  with assms(2) have "run (es0 @ es) Trainer_init = Some s'"
    by (simp add: run_append)
  then show ?thesis unfolding reachable_def by blast
qed

lemma first_selection: "new_note_practice zero_draws 0 Trainer_init = Inr first_state"
  by (simp add: new_note_practice_def update_notes_def pick_note_def move_note_def
        bind_err_def choice_def list_del_def Let_def Trainer_init_def first_state_def
        zero_draws_def catalog_def topic_1_def StringTopic_def mk_note_def
        ADD_NOTES_INCREMENTALLY_def)

lemma reachable_first_state: "reachable first_state"
proof -
  have "run [NewNote zero_draws 0] Trainer_init = Some first_state"
    by (simp add: first_selection)
  then show ?thesis unfolding reachable_def by blast
qed

section \<open>The next note\<close>

text \<open>
  Claim C10. After every call of \<^verbatim>\<open>new_note_practice\<close> on a reachable trainer, in
  either mode, the call returns, the notes in play and the notes in the queue have no
  note in common, neither list repeats a note, and together they are a permutation of the
  notes of the current topic.
\<close>

theorem play_and_queue_partition_topic:
  assumes "reachable s"
  shows "\<exists>s'. new_note_practice qd pd s = Inr s'
           \<and> set (notes_in_play s') \<inter> set (notes_in_queue s') = {}
           \<and> distinct (notes_in_play s') \<and> distinct (notes_in_queue s')
           \<and> mset (notes_in_play s' @ notes_in_queue s') = mset (topic_notes (topic s'))"
proof -
  from assms have inv: "trainer_inv s" by (rule reachable_inv)
  from new_note_practice_props [OF inv, of qd pd] obtain s' where
    n: "new_note_practice qd pd s = Inr s'" by blast
  from new_note_practice_inv [OF inv n] have i': "trainer_inv s'" and c': "consistent s'"
    by simp_all
  from i' have "topic s' \<in> set catalog" by (simp add: trainer_inv_def)
  from consistent_distinct [OF this c']
  have "distinct (notes_in_play s' @ notes_in_queue s')" .
  moreover from c' have "mset (notes_in_play s' @ notes_in_queue s') = mset (topic_notes (topic s'))"
    by (simp add: consistent_def)
  ultimately show ?thesis using n by auto
qed

theorem play_and_queue_partition_topic_witness:
  "reachable Trainer_init
   \<and> (\<exists>s'. new_note_practice zero_draws 0 Trainer_init = Inr s'
           \<and> set (notes_in_play s') \<inter> set (notes_in_queue s') = {}
           \<and> distinct (notes_in_play s') \<and> distinct (notes_in_queue s')
           \<and> mset (notes_in_play s' @ notes_in_queue s') = mset (topic_notes (topic s')))"
proof -
  have "run [] Trainer_init = Some Trainer_init" by simp
  then have r: "reachable Trainer_init" unfolding reachable_def by blast
  from r play_and_queue_partition_topic [OF r, of zero_draws 0] show ?thesis by blast
qed

text \<open>
  Claim C7. On a reachable trainer with at least one attempt since the last reset and no
  change of topic or method pending, \<^verbatim>\<open>new_note_practice\<close> returns, appends one attempt
  to the history, and the target of that attempt differs from the target of the attempt
  before it. (At least three notes are in play in every such trainer.)
\<close>

theorem no_immediate_repeat:
  assumes "reachable s" and "\<not> topic_changed s" and "\<not> add_notes_method_changed s"
    and "practiced_notes s \<noteq> []"
  shows "\<exists>s' p. new_note_practice qd pd s = Inr s'
           \<and> practiced_notes s' = practiced_notes s @ [p]
           \<and> target_note p \<noteq> target_note (last (practiced_notes s))
           \<and> 2 \<le> length (notes_in_play s)"
proof -
  from assms(1) have inv: "trainer_inv s" by (rule reachable_inv)
  with assms(2,3) have "consistent s" by (simp add: trainer_inv_def)
  then have two: "2 \<le> length (notes_in_play s)" by (simp add: consistent_def)
  from new_note_practice_props [OF inv, of qd pd] obtain s1 r where
    n: "new_note_practice qd pd s
          = Inr (s1\<lparr>practiced_notes := practiced_notes s1 @ [NotePractice_init r]\<rparr>)"
    and p1: "practiced_notes s1
               = (if topic_changed s \<or> add_notes_method_changed s then [] else practiced_notes s)"
    and r: "practiced_notes s1 \<noteq> [] \<longrightarrow> r \<noteq> target_note (last (practiced_notes s1))"
    by blast
  from p1 assms(2,3) have p: "practiced_notes s1 = practiced_notes s" by simp
  with r assms(4) have "target_note (NotePractice_init r) \<noteq> target_note (last (practiced_notes s))"
    by (simp add: target_note_init)
  with n p two show ?thesis by auto
qed

theorem no_immediate_repeat_witness:
  "reachable first_state \<and> \<not> topic_changed first_state
   \<and> \<not> add_notes_method_changed first_state \<and> practiced_notes first_state \<noteq> []
   \<and> (\<exists>s' p. new_note_practice zero_draws 0 first_state = Inr s'
           \<and> practiced_notes s' = practiced_notes first_state @ [p]
           \<and> target_note p \<noteq> target_note (last (practiced_notes first_state))
           \<and> 2 \<le> length (notes_in_play first_state))"
proof -
  have h: "\<not> topic_changed first_state" "\<not> add_notes_method_changed first_state"
    "practiced_notes first_state \<noteq> []"
    by (simp_all add: first_state_def Trainer_init_def)
  from no_immediate_repeat [OF reachable_first_state h, of zero_draws 0] reachable_first_state h
  show ?thesis by blast
qed

section \<open>The schedule of the incremental method\<close>

lemma apply_event_total:
  assumes "trainer_inv s"
  shows "\<exists>s'. apply_event e s = Some s'"
proof (cases e)
  case (NewNote qd pd)
  from new_note_practice_props [OF assms, of qd pd] obtain s' where
    "new_note_practice qd pd s = Inr s'" by blast
  with NewNote show ?thesis by simp
next
  case (Capture i f peak now)
  then show ?thesis by (simp split: prod.splits)
qed simp_all

lemma run_total: "trainer_inv s \<Longrightarrow> \<exists>s'. run es s = Some s'"
proof (induction es arbitrary: s)
  case Nil
  show ?case by simp
next
  case (Cons e es)
  from apply_event_total [OF Cons.prems, of e] obtain s1 where e: "apply_event e s = Some s1"
    by blast
  from apply_event_inv [OF Cons.prems e] have "trainer_inv s1" .
  from Cons.IH [OF this] e show ?case by simp
qed

lemma kill_fields:
  "\<exists>ps. snd (kill_current_note_practice s) = s\<lparr>practiced_notes := ps\<rparr>
        \<and> length ps = length (practiced_notes s)
        \<and> map complete_flag ps = map complete_flag (practiced_notes s)"
proof (cases "practiced_notes s = []")
  case True
  then have "snd (kill_current_note_practice s) = s\<lparr>practiced_notes := practiced_notes s\<rparr>"
    by (simp add: kill_current_note_practice_def)
  then show ?thesis by blast
next
  case False
  let ?l = "last (practiced_notes s)"
  have c: "complete_flag (snd (set_terminate True ?l)) = complete_flag ?l"
    by (simp add: set_terminate_def)
  have id: "butlast (practiced_notes s) @ [?l] = practiced_notes s" using False by simp
  show ?thesis
  proof (cases "fst (set_terminate True ?l)")
    case (Inl err)
    then have "snd (kill_current_note_practice s) = s\<lparr>practiced_notes := practiced_notes s\<rparr>"
      using False by (cases "set_terminate True ?l") (simp add: kill_current_note_practice_def)
    then show ?thesis by blast
  next
    case (Inr u)
    let ?ps = "butlast (practiced_notes s) @ [snd (set_terminate True ?l)]"
    from Inr have "snd (kill_current_note_practice s) = s\<lparr>practiced_notes := ?ps\<rparr>"
      using False by (cases "set_terminate True ?l") (simp add: kill_current_note_practice_def)
    moreover have "length ?ps = length (practiced_notes s)" using False by simp
    moreover have "map complete_flag ?ps = map complete_flag (butlast (practiced_notes s) @ [?l])"
      using c by simp
    ultimately show ?thesis unfolding id by blast
  qed
qed

lemma quiet_event:
  assumes "\<not> is_new_note e" and "\<not> is_setter e" and "apply_event e s = Some s'"
  shows "same_schedule s s'"
proof (cases e)
  case Kill
  from kill_fields [of s] obtain ps where
    "snd (kill_current_note_practice s) = s\<lparr>practiced_notes := ps\<rparr>"
    "length ps = length (practiced_notes s)" by blast
  with Kill assms(3) show ?thesis by (auto simp: same_schedule_def)
next
  case (CaptureStart i now)
  with assms(3) show ?thesis by (auto simp: same_schedule_def split: if_splits)
next
  case (Capture i f peak now)
  show ?thesis
  proof (cases "i < length (practiced_notes s)")
    case False
    with assms(3) Capture show ?thesis by (simp add: same_schedule_def)
  next
    case i: True
    obtain s1 p1 where sp: "snd (process_reading f peak now (s, practiced_notes s ! i)) = (s1, p1)"
      by (cases "snd (process_reading f peak now (s, practiced_notes s ! i))")
    with assms(3) Capture i have s': "s' = s1\<lparr>practiced_notes := (practiced_notes s1)[i := p1]\<rparr>"
      by simp
    from process_reading_trainer [of f peak now s "practiced_notes s ! i"] sp
    obtain w t where s1: "s1 = s\<lparr>noise_levels := w, noise_threshold := t\<rparr>" by auto
    show ?thesis unfolding s' s1 by (simp add: same_schedule_def)
  qed
next
  case (CaptureDetached p f peak now)
  from process_reading_trainer [of f peak now s p]
  obtain w t where "fst (snd (process_reading f peak now (s, p)))
                      = s\<lparr>noise_levels := w, noise_threshold := t\<rparr>" by auto
  with CaptureDetached assms(3) show ?thesis by (auto simp: same_schedule_def)
qed (use assms in simp_all)

lemma consistent_sizes:
  "consistent s \<Longrightarrow>
   length (notes_in_play s) + length (notes_in_queue s) = length (topic_notes (topic s))"
proof -
  assume "consistent s"
  then have "mset (notes_in_play s @ notes_in_queue s) = mset (topic_notes (topic s))"
    by (simp add: consistent_def)
  from mset_eq_length [OF this] show ?thesis by simp
qed

lemma selection_after_reset:
  assumes p: "reset_pending s" and n: "add_notes_increment s = int n"
    and sel: "new_note_practice qd pd s = Inr s'"
  shows "scheduled n 1 s' \<and> topic s' = topic s"
proof -
  from p have inv: "trainer_inv s" and ch: "topic_changed s \<or> add_notes_method_changed s"
    and m: "add_notes_method s = ADD_NOTES_INCREMENTALLY"
    by (simp_all add: reset_pending_def)
  from update_notes_reset [OF inv ch, of qd] m obtain pl qu where
    u: "update_notes qd s
          = Inr (s\<lparr>topic_changed := False, add_notes_method_changed := False,
                   practiced_notes := [], notes_in_queue := qu, notes_in_play := pl\<rparr>)"
    and l: "length pl = 3"
    by blast
  let ?s1 = "s\<lparr>topic_changed := False, add_notes_method_changed := False,
                   practiced_notes := [], notes_in_queue := qu, notes_in_play := pl\<rparr>"
  from sel u obtain r where s': "s' = ?s1\<lparr>practiced_notes := [NotePractice_init r]\<rparr>"
    by (auto simp: new_note_practice_def bind_err_def split: sum.splits)
  from new_note_practice_inv [OF inv sel] have "trainer_inv s'" by simp
  then show ?thesis using l n unfolding s' by (simp add: scheduled_def)
qed

lemma selection_scheduled:
  assumes sc: "scheduled n k s" and k: "1 \<le> k" and sel: "new_note_practice qd pd s = Inr s'"
  shows "scheduled n (Suc k) s' \<and> topic s' = topic s"
proof -
  let ?N = "length (topic_notes (topic s))"
  let ?m = "(k - 1) div n"
  from sc have inv: "trainer_inv s" and ch: "\<not> topic_changed s" "\<not> add_notes_method_changed s"
    and inc: "add_notes_increment s = int n" and len: "length (practiced_notes s) = k"
    and pl: "length (notes_in_play s) = 3 + min (?N - 3) ?m"
    by (simp_all add: scheduled_def)
  from inv ch have c: "consistent s" by (simp add: trainer_inv_def)
  from inv inc have n: "1 \<le> n" by (simp add: trainer_inv_def)
  from k len have ne: "practiced_notes s \<noteq> []" by auto
  have modn: "int (length (practiced_notes s)) mod add_notes_increment s = 0 \<longleftrightarrow> k mod n = 0"
    unfolding inc len by (metis of_nat_0 of_nat_eq_iff zmod_int)
  from k have divn: "k div n = (if k mod n = 0 then Suc ?m else ?m)"
    using div_Suc [of "k - 1" n] by simp
  from consistent_sizes [OF c] have sz: "length (notes_in_play s) + length (notes_in_queue s) = ?N" .
  from new_note_practice_inv [OF inv sel] have inv': "trainer_inv s'"
    and ch': "\<not> topic_changed s'" "\<not> add_notes_method_changed s'"
    by simp_all
  show ?thesis
  proof (cases "k mod n = 0 \<and> notes_in_queue s \<noteq> []")
    case True
    then have q: "notes_in_queue s \<noteq> []" by simp
    from move_note_props [OF q, of "qd 0"] obtain r where
      mv: "move_note (qd 0) s = Inr (s\<lparr>notes_in_play := notes_in_play s @ [r],
                                      notes_in_queue := remove1 r (notes_in_queue s)\<rparr>)"
      by blast
    let ?s1 = "s\<lparr>notes_in_play := notes_in_play s @ [r],
                   notes_in_queue := remove1 r (notes_in_queue s)\<rparr>"
    have u: "update_notes qd s = Inr ?s1"
      using update_notes_keep [OF inv ch, of qd] True ne modn mv by simp
    from sel u obtain t where
      s': "s' = ?s1\<lparr>practiced_notes := practiced_notes ?s1 @ [NotePractice_init t]\<rparr>"
      by (auto simp: new_note_practice_def bind_err_def split: sum.splits)
    from q sz have "length (notes_in_play s) < ?N" by (cases "notes_in_queue s") auto
    with pl have "?m < ?N - 3" by (simp add: min_def split: if_splits)
    with pl divn True have "length (notes_in_play s) + 1 = 3 + min (?N - 3) (k div n)"
      by simp
    with inv' ch' inc len show ?thesis unfolding s' by (simp add: scheduled_def)
  next
    case False
    then have u: "update_notes qd s = Inr s"
      using update_notes_keep [OF inv ch, of qd] ne modn by auto
    from sel u obtain t where
      s': "s' = s\<lparr>practiced_notes := practiced_notes s @ [NotePractice_init t]\<rparr>"
      by (auto simp: new_note_practice_def bind_err_def split: sum.splits)
    have "length (notes_in_play s) = 3 + min (?N - 3) (k div n)"
    proof (cases "k mod n = 0")
      case True
      with False have "notes_in_queue s = []" by simp
      with sz have "length (notes_in_play s) = ?N" by simp
      with pl have "?N - 3 \<le> ?m" by (simp add: min_def split: if_splits)
      with pl divn True show ?thesis by simp
    next
      case False
      with pl divn show ?thesis by simp
    qed
    with inv' ch' inc len show ?thesis unfolding s' by (simp add: scheduled_def)
  qed
qed

lemma quiet_scheduled:
  assumes "scheduled n k s" and "same_schedule s s'" and "trainer_inv s'"
  shows "scheduled n k s'"
  using assms by (simp add: scheduled_def same_schedule_def)

lemma quiet_reset_pending:
  assumes "reset_pending s" and "same_schedule s s'" and "trainer_inv s'"
  shows "reset_pending s'"
  using assms by (simp add: reset_pending_def same_schedule_def)

lemma run_scheduled:
  assumes "scheduled n k s" and "1 \<le> k" and "no_setters es" and "run es s = Some s'"
  shows "scheduled n (k + selections es) s' \<and> topic s' = topic s"
  using assms
proof (induction es arbitrary: s k)
  case Nil
  then show ?case by (simp add: selections_def)
next
  case (Cons e es)
  from Cons.prems(4) obtain s1 where e: "apply_event e s = Some s1" and r: "run es s1 = Some s'"
    by (auto split: option.splits)
  from Cons.prems(3) have ns: "\<not> is_setter e" "no_setters es" by (simp_all add: no_setters_def)
  from Cons.prems(1) have inv: "trainer_inv s" by (simp add: scheduled_def)
  show ?case
  proof (cases "is_new_note e")
    case True
    then obtain qd pd where ev: "e = NewNote qd pd" by (cases e) simp_all
    with e have "new_note_practice qd pd s = Inr s1" by (simp split: sum.splits)
    from selection_scheduled [OF Cons.prems(1,2) this]
    have s1: "scheduled n (Suc k) s1" and t1: "topic s1 = topic s" by simp_all
    from Cons.IH [OF s1 _ ns(2) r] t1 True show ?thesis by (simp add: selections_def)
  next
    case False
    from quiet_event [OF False ns(1) e] have q: "same_schedule s s1" .
    from quiet_scheduled [OF Cons.prems(1) q apply_event_inv [OF inv e]]
    have s1: "scheduled n k s1" .
    from q have t1: "topic s1 = topic s" by (simp add: same_schedule_def)
    from Cons.IH [OF s1 Cons.prems(2) ns(2) r] t1 False show ?thesis by (simp add: selections_def)
  qed
qed

lemma run_reset_pending:
  assumes "reset_pending s" and "add_notes_increment s = int n" and "no_setters es"
    and "run es s = Some s'" and "1 \<le> selections es"
  shows "scheduled n (selections es) s' \<and> topic s' = topic s"
  using assms
proof (induction es arbitrary: s)
  case Nil
  then show ?case by (simp add: selections_def)
next
  case (Cons e es)
  from Cons.prems(4) obtain s1 where e: "apply_event e s = Some s1" and r: "run es s1 = Some s'"
    by (auto split: option.splits)
  from Cons.prems(3) have ns: "\<not> is_setter e" "no_setters es" by (simp_all add: no_setters_def)
  from Cons.prems(1) have inv: "trainer_inv s" by (simp add: reset_pending_def)
  show ?case
  proof (cases "is_new_note e")
    case True
    then obtain qd pd where ev: "e = NewNote qd pd" by (cases e) simp_all
    with e have "new_note_practice qd pd s = Inr s1" by (simp split: sum.splits)
    from selection_after_reset [OF Cons.prems(1,2) this]
    have s1: "scheduled n 1 s1" and t1: "topic s1 = topic s" by simp_all
    from run_scheduled [OF s1 _ ns(2) r] t1 True show ?thesis by (simp add: selections_def)
  next
    case False
    from quiet_event [OF False ns(1) e] have q: "same_schedule s s1" .
    from quiet_reset_pending [OF Cons.prems(1) q apply_event_inv [OF inv e]]
    have p1: "reset_pending s1" .
    from q Cons.prems(2) have n1: "add_notes_increment s1 = int n" and t1: "topic s1 = topic s"
      by (simp_all add: same_schedule_def)
    from Cons.prems(5) False have "1 \<le> selections es" by (simp add: selections_def)
    from Cons.IH [OF p1 n1 ns(2) r this] t1 False show ?thesis by (simp add: selections_def)
  qed
qed

text \<open>The schedule of the incremental method, for any increment and any topic.\<close>

lemma growth_schedule:
  assumes inv: "trainer_inv s" and ch: "topic_changed s \<or> add_notes_method_changed s"
    and m: "add_notes_method s = ADD_NOTES_INCREMENTALLY"
    and ns: "no_setters es" and k: "1 \<le> selections es"
  shows "\<exists>s'. run es s = Some s'
           \<and> length (notes_in_play s')
               = 3 + min (length (topic_notes (topic s)) - 3)
                       ((selections es - 1) div nat (add_notes_increment s))
           \<and> length (notes_in_play s') + length (notes_in_queue s')
               = length (topic_notes (topic s))"
proof -
  from run_total [OF inv, of es] obtain s' where r: "run es s = Some s'" by blast
  from inv ch m have p: "reset_pending s" by (simp add: reset_pending_def)
  from inv have "add_notes_increment s = int (nat (add_notes_increment s))"
    by (simp add: trainer_inv_def)
  from run_reset_pending [OF p this ns r k]
  have sc: "scheduled (nat (add_notes_increment s)) (selections es) s'"
    and t: "topic s' = topic s" by simp_all
  from sc have "consistent s'" by (simp add: scheduled_def trainer_inv_def)
  from consistent_sizes [OF this] sc t r show ?thesis by (simp add: scheduled_def)
qed

text \<open>One selection without a reset pending.\<close>

lemma selection_step:
  assumes inv: "trainer_inv s" and ch: "\<not> topic_changed s" "\<not> add_notes_method_changed s"
  shows "\<exists>s'. new_note_practice qd pd s = Inr s'
     \<and> (if practiced_notes s \<noteq> []
            \<and> int (length (practiced_notes s)) mod add_notes_increment s = 0
            \<and> notes_in_queue s \<noteq> []
         then \<exists>r \<in> set (notes_in_queue s).
                notes_in_play s' = notes_in_play s @ [r]
                \<and> notes_in_queue s' = remove1 r (notes_in_queue s)
         else notes_in_play s' = notes_in_play s \<and> notes_in_queue s' = notes_in_queue s)"
proof -
  from new_note_practice_props [OF inv, of qd pd] obtain s1 t where
    u: "update_notes qd s = Inr s1"
    and n: "new_note_practice qd pd s
              = Inr (s1\<lparr>practiced_notes := practiced_notes s1 @ [NotePractice_init t]\<rparr>)"
    by blast
  let ?s' = "s1\<lparr>practiced_notes := practiced_notes s1 @ [NotePractice_init t]\<rparr>"
  show ?thesis
  proof (cases "practiced_notes s \<noteq> []
            \<and> int (length (practiced_notes s)) mod add_notes_increment s = 0
            \<and> notes_in_queue s \<noteq> []")
    case True
    then have q: "notes_in_queue s \<noteq> []" by simp
    from move_note_props [OF q, of "qd 0"] obtain r where
      r: "r \<in> set (notes_in_queue s)"
      and mv: "move_note (qd 0) s = Inr (s\<lparr>notes_in_play := notes_in_play s @ [r],
                                      notes_in_queue := remove1 r (notes_in_queue s)\<rparr>)"
      by blast
    from u update_notes_keep [OF inv ch, of qd] True mv
    have "s1 = s\<lparr>notes_in_play := notes_in_play s @ [r],
                  notes_in_queue := remove1 r (notes_in_queue s)\<rparr>" by simp
    then have "notes_in_play ?s' = notes_in_play s @ [r]"
      "notes_in_queue ?s' = remove1 r (notes_in_queue s)" by simp_all
    with n r True show ?thesis by auto
  next
    case False
    with u update_notes_keep [OF inv ch, of qd] have "s1 = s" by auto
    with n False show ?thesis by auto
  qed
qed

lemma count_flags:
  "length (filter complete_flag ps) = length (filter id (map complete_flag ps))"
  by (induction ps) auto

text \<open>Only selections and kills: no attempt is ever completed.\<close>

lemma run_without_capture:
  assumes "trainer_inv s" and "list_all (\<lambda>e. is_new_note e \<or> e = Kill) es"
    and "run es s = Some s'" and "completed_attempts s = 0"
  shows "completed_attempts s' = 0"
  using assms
proof (induction es arbitrary: s)
  case Nil
  then show ?case by simp
next
  case (Cons e es)
  from Cons.prems(3) obtain s1 where e: "apply_event e s = Some s1" and r: "run es s1 = Some s'"
    by (auto split: option.splits)
  from Cons.prems(2) have ev: "is_new_note e \<or> e = Kill" and rest: "list_all (\<lambda>e. is_new_note e \<or> e = Kill) es"
    by simp_all
  have "completed_attempts s1 = 0"
  proof (cases "e = Kill")
    case True
    from kill_fields [of s] obtain ps where
      "snd (kill_current_note_practice s) = s\<lparr>practiced_notes := ps\<rparr>"
      "map complete_flag ps = map complete_flag (practiced_notes s)" by blast
    with True e have "map complete_flag (practiced_notes s1) = map complete_flag (practiced_notes s)"
      by auto
    then have "length (filter complete_flag (practiced_notes s1))
                 = length (filter complete_flag (practiced_notes s))"
      by (simp only: count_flags)
    with Cons.prems(4) show ?thesis by (simp add: completed_attempts_def)
  next
    case False
    with ev obtain qd pd where "e = NewNote qd pd" by (cases e) simp_all
    with e have n: "new_note_practice qd pd s = Inr s1" by (simp split: sum.splits)
    from new_note_practice_props [OF Cons.prems(1), of qd pd] obtain s0 t where
      n0: "new_note_practice qd pd s
             = Inr (s0\<lparr>practiced_notes := practiced_notes s0 @ [NotePractice_init t]\<rparr>)"
      and p0: "practiced_notes s0
           = (if topic_changed s \<or> add_notes_method_changed s then [] else practiced_notes s)"
      by blast
    from n n0 have s1: "s1 = s0\<lparr>practiced_notes := practiced_notes s0 @ [NotePractice_init t]\<rparr>"
      by simp
    from p0 Cons.prems(4) have "filter complete_flag (practiced_notes s0) = []"
      by (auto simp: completed_attempts_def)
    then show ?thesis unfolding s1 by (simp add: completed_attempts_def NotePractice_init_def)
  qed
  from Cons.IH [OF apply_event_inv [OF Cons.prems(1) e] rest r this] show ?case .
qed

lemma abandoned_ten_events:
  "list_all (\<lambda>e. is_new_note e \<or> e = Kill) abandoned_ten"
  "no_setters abandoned_ten" "selections abandoned_ten = 10"
  by (simp_all add: abandoned_ten_def no_setters_def selections_def eval_nat_numeral)

lemma abandoned_then_next_events:
  "list_all (\<lambda>e. is_new_note e \<or> e = Kill) abandoned_then_next"
  "no_setters abandoned_then_next" "selections abandoned_then_next = 11"
  using abandoned_ten_events
  by (simp_all add: abandoned_then_next_def no_setters_def selections_def)

lemma Trainer_init_schedule:
  "topic_changed Trainer_init \<or> add_notes_method_changed Trainer_init"
  "add_notes_method Trainer_init = ADD_NOTES_INCREMENTALLY"
  "nat (add_notes_increment Trainer_init) = 10"
  "length (topic_notes (topic Trainer_init)) = 13"
  "completed_attempts Trainer_init = 0"
  by (simp_all add: Trainer_init_def ADD_NOTES_INCREMENT_DEFAULT_def catalog_def topic_1_def
        StringTopic_def completed_attempts_def)

text \<open>
  Claim C8, as stated: a note moves from the queue into play after every
  \<^verbatim>\<open>add_notes_increment\<close> completed attempts and at no other time. On the fresh trainer
  (increment 10, a topic of 13 notes), ten attempts are requested and each is abandoned
  with \<^verbatim>\<open>kill_current_note_practice\<close>: not one attempt is completed and three notes are
  in play. The request of the eleventh attempt puts a fourth note into play: the code
  counts the attempts of the history, completed or not.
\<close>

theorem growth_without_completed_attempts_counterexample:
  "map_option completed_attempts (run abandoned_ten Trainer_init) = Some 0
   \<and> map_option play_size (run abandoned_ten Trainer_init) = Some 3
   \<and> map_option completed_attempts (run abandoned_then_next Trainer_init) = Some 0
   \<and> map_option play_size (run abandoned_then_next Trainer_init) = Some 4"
proof -
  note i = trainer_inv_init
  from growth_schedule [OF i Trainer_init_schedule(1,2) abandoned_ten_events(2)]
  obtain s10 where r10: "run abandoned_ten Trainer_init = Some s10"
    and p10: "length (notes_in_play s10) = 3"
    by (auto simp: abandoned_ten_events(3) Trainer_init_schedule(3,4))
  from growth_schedule [OF i Trainer_init_schedule(1,2) abandoned_then_next_events(2)]
  obtain s11 where r11: "run abandoned_then_next Trainer_init = Some s11"
    and p11: "length (notes_in_play s11) = 4"
    by (auto simp: abandoned_then_next_events(3) Trainer_init_schedule(3,4))
  from run_without_capture [OF i abandoned_ten_events(1) r10 Trainer_init_schedule(5)]
  have c10: "completed_attempts s10 = 0" .
  from run_without_capture [OF i abandoned_then_next_events(1) r11 Trainer_init_schedule(5)]
  have c11: "completed_attempts s11 = 0" .
  from r10 p10 c10 r11 p11 c11 show ?thesis by (simp add: play_size_def)
qed

text \<open>
  Claim C8, amended. With no change of topic or method pending, the next selection moves
  exactly one note from the queue to the back of the notes in play when the number of
  attempts in the history, completed or not, is a positive multiple of
  \<^verbatim>\<open>add_notes_increment\<close> and the queue is not empty, and moves no note otherwise. With
  the incremental method, increment 10 and a topic of 8 notes, after the \<open>k\<close>-th
  selection since the reset \<open>3 + min 5 ((k - 1) div 10)\<close> notes are in play and the others
  in the queue, whatever the capture thread or \<^verbatim>\<open>kill_current_note_practice\<close> did in
  between: the notes in play grow by one at the selections that follow attempts 10, 20,
  30, 40 and 50, and the queue is empty from then on.
\<close>

theorem notes_added_every_increment_attempts:
  assumes "reachable s" and "\<not> topic_changed s" and "\<not> add_notes_method_changed s"
    and "reachable s0" and "topic_changed s0 \<or> add_notes_method_changed s0"
    and "add_notes_method s0 = ADD_NOTES_INCREMENTALLY" and "add_notes_increment s0 = 10"
    and "length (topic_notes (topic s0)) = 8"
    and "no_setters es" and "1 \<le> selections es"
  shows "(\<exists>s'. new_note_practice qd pd s = Inr s'
           \<and> (if practiced_notes s \<noteq> []
                  \<and> int (length (practiced_notes s)) mod add_notes_increment s = 0
                  \<and> notes_in_queue s \<noteq> []
               then \<exists>r \<in> set (notes_in_queue s).
                      notes_in_play s' = notes_in_play s @ [r]
                      \<and> notes_in_queue s' = remove1 r (notes_in_queue s)
               else notes_in_play s' = notes_in_play s \<and> notes_in_queue s' = notes_in_queue s))
         \<and> (\<exists>s'. run es s0 = Some s'
               \<and> play_size s' = 3 + min 5 ((selections es - 1) div 10)
               \<and> queue_size s' = 5 - min 5 ((selections es - 1) div 10))"
proof -
  from assms(1) have "trainer_inv s" by (rule reachable_inv)
  note step = selection_step [OF this assms(2,3), of qd pd]
  from assms(4) have "trainer_inv s0" by (rule reachable_inv)
  from growth_schedule [OF this assms(5,6,9,10)] assms(7,8)
  obtain s' where r: "run es s0 = Some s'"
    and p: "length (notes_in_play s') = 3 + min 5 ((selections es - 1) div 10)"
    and q: "length (notes_in_play s') + length (notes_in_queue s') = 8"
    by auto
  from p q have "length (notes_in_queue s') = 5 - min 5 ((selections es - 1) div 10)"
    by linarith
  with r p have "\<exists>s'. run es s0 = Some s'
               \<and> play_size s' = 3 + min 5 ((selections es - 1) div 10)
               \<and> queue_size s' = 5 - min 5 ((selections es - 1) div 10)"
    by (auto simp: play_size_def queue_size_def)
  with step show ?thesis by blast
qed

lemma eleven_requests_events:
  "no_setters eleven_requests" "selections eleven_requests = 11"
  by (simp_all add: eleven_requests_def no_setters_def selections_def list_all_iff)

lemma reachable_topic_0_state: "reachable topic_0_state"
proof -
  have "run [SetTopic 0] Trainer_init = Some topic_0_state"
    by (simp add: topic_0_state_def)
  then show ?thesis unfolding reachable_def by blast
qed

theorem notes_added_every_increment_attempts_witness:
  "reachable first_state \<and> \<not> topic_changed first_state
   \<and> \<not> add_notes_method_changed first_state
   \<and> reachable topic_0_state
   \<and> (topic_changed topic_0_state \<or> add_notes_method_changed topic_0_state)
   \<and> add_notes_method topic_0_state = ADD_NOTES_INCREMENTALLY
   \<and> add_notes_increment topic_0_state = 10
   \<and> length (topic_notes (topic topic_0_state)) = 8
   \<and> no_setters eleven_requests \<and> 1 \<le> selections eleven_requests
   \<and> (\<exists>s'. new_note_practice zero_draws 0 first_state = Inr s'
          \<and> notes_in_play s' = notes_in_play first_state
          \<and> notes_in_queue s' = notes_in_queue first_state)
   \<and> (\<exists>s'. run eleven_requests topic_0_state = Some s' \<and> play_size s' = 4 \<and> queue_size s' = 4)"
proof -
  have a: "\<not> topic_changed first_state" "\<not> add_notes_method_changed first_state"
    by (simp_all add: first_state_def Trainer_init_def)
  have t: "topic_0_state = Trainer_init\<lparr>topic := topic_0, topic_changed := True\<rparr>"
    by (simp add: topic_0_state_def set_current_topic_def py_getitem_def Trainer_init_def
          catalog_def)
  have b: "topic_changed topic_0_state \<or> add_notes_method_changed topic_0_state"
    "add_notes_method topic_0_state = ADD_NOTES_INCREMENTALLY"
    "add_notes_increment topic_0_state = 10"
    "length (topic_notes (topic topic_0_state)) = 8"
    unfolding t
    by (simp_all add: Trainer_init_def ADD_NOTES_INCREMENT_DEFAULT_def topic_0_def
          StringTopic_def)
  have c: "1 \<le> selections eleven_requests" by (simp add: eleven_requests_events(2))
  have d: "\<not> (practiced_notes first_state \<noteq> []
             \<and> int (length (practiced_notes first_state)) mod add_notes_increment first_state = 0
             \<and> notes_in_queue first_state \<noteq> [])"
    by (simp add: first_state_def Trainer_init_def ADD_NOTES_INCREMENT_DEFAULT_def)
  from notes_added_every_increment_attempts
         [OF reachable_first_state a reachable_topic_0_state b eleven_requests_events(1) c,
          of zero_draws 0]
  have "(\<exists>s'. new_note_practice zero_draws 0 first_state = Inr s'
          \<and> notes_in_play s' = notes_in_play first_state
          \<and> notes_in_queue s' = notes_in_queue first_state)
     \<and> (\<exists>s'. run eleven_requests topic_0_state = Some s' \<and> play_size s' = 4 \<and> queue_size s' = 4)"
    using d by (simp add: eleven_requests_events(2))
  with reachable_first_state a reachable_topic_0_state b eleven_requests_events(1) c
  show ?thesis by blast
qed

section \<open>The restricted range of the spectrum\<close>

subsection \<open>Bounds on the band edges\<close>

lemma powr_root_power:
  assumes "0 < n"
  shows "((2::real) powr (p / real n)) ^ n = 2 powr p"
proof -
  have "((2::real) powr (p / real n)) ^ n = 2 powr (real n * (p / real n))"
    by (rule powr_power) simp
  also have "real n * (p / real n) = p" using assms by simp
  finally show ?thesis .
qed

lemma less_powr_root:
  assumes "0 < n" and "x ^ n < 2 powr p"
  shows "x < 2 powr (p / real n)"
proof (rule power_less_imp_less_base)
  show "x ^ n < (2 powr (p / real n)) ^ n"
    using assms by (simp add: powr_root_power)
  show "0 \<le> (2::real) powr (p / real n)" by simp
qed

lemma powr_root_less:
  assumes "0 < n" and "0 \<le> x" and "2 powr p < x ^ n"
  shows "2 powr (p / real n) < x"
proof (rule power_less_imp_less_base)
  show "((2::real) powr (p / real n)) ^ n < x ^ n"
    using assms by (simp add: powr_root_power)
  show "0 \<le> x" by fact
qed

lemma powr_neg_29: "(2::real) powr (- 29) = 1 / 2 ^ 29"
  by (simp add: powr_minus_divide)

lemma powr_neg_59: "(2::real) powr (- 59) = 1 / 2 ^ 59"
  by (simp add: powr_minus_divide)

lemma midi_40_above: "61 / 2 * (11025 / 4096) < midi_to_freq 40"
proof -
  have "(134505 / 720896 :: real) ^ 12 < 2 powr (- 29)"
    unfolding powr_neg_29 by (simp add: power_divide)
  from less_powr_root [OF _ this] have "(134505 / 720896 :: real) < 2 powr (- 29 / 12)"
    by simp
  then show ?thesis by (simp add: midi_to_freq_def)
qed

lemma midi_40_below: "midi_to_freq 40 < 63 / 2 * (11025 / 4096)"
proof -
  have "(2::real) powr (- 29) < (63 / 2 * (11025 / 4096) / 440) ^ 12"
    unfolding powr_neg_29 by (simp add: power_divide)
  from powr_root_less [OF _ _ this] have "2 powr (- 29 / 12) < (63 / 2 * (11025 / 4096) / 440 :: real)"
    by simp
  then show ?thesis by (simp add: midi_to_freq_def)
qed

lemma midi_76_above: "489 / 2 * (11025 / 4096) < midi_to_freq 76"
proof -
  have "(489 / 2 * (11025 / 4096) / 440 :: real) ^ 12 < 2 powr 7"
    by (simp add: power_divide)
  from less_powr_root [OF _ this] have "(489 / 2 * (11025 / 4096) / 440 :: real) < 2 powr (7 / 12)"
    by simp
  then show ?thesis by (simp add: midi_to_freq_def)
qed

lemma midi_76_below: "midi_to_freq 76 < 491 / 2 * (11025 / 4096)"
proof -
  have "(2::real) powr 7 < (491 / 2 * (11025 / 4096) / 440) ^ 12"
    by (simp add: power_divide)
  from powr_root_less [OF _ _ this] have "2 powr (7 / 12) < (491 / 2 * (11025 / 4096) / 440 :: real)"
    by simp
  then show ?thesis by (simp add: midi_to_freq_def)
qed

lemma band_low: "(2::real) powr (- 59 / 24) < 31 * (11025 / 4096) / 440"
proof -
  have "(2::real) powr (- 59) < (31 * (11025 / 4096) / 440) ^ 24"
    unfolding powr_neg_59 by (simp add: power_divide)
  from powr_root_less [OF _ _ this] show ?thesis by simp
qed

lemma band_high: "245 * (11025 / 4096) / 440 < (2::real) powr (15 / 24)"
proof -
  have "(245 * (11025 / 4096) / 440 :: real) ^ 24 < 2 powr 15"
    by (simp add: power_divide)
  from less_powr_root [OF _ this] show ?thesis by simp
qed

subsection \<open>The precomputed bin indices\<close>

lemma fft_freqs_length: "length fft_freqs = 16384"
  by (simp add: fft_freqs_def fftfreq_def SAMPLE_SIZE_def)

lemma fft_freqs_nth:
  assumes "j < 16384"
  shows "fft_freqs ! j = (if j < 8192 then real j else real j - 16384) * (11025 / 4096)"
proof -
  have "fft_freqs ! j
          = (if j < (16384 - 1) div 2 + 1 then real j else real j - real (16384::nat))
            * (real (44100::nat) / real (16384::nat))"
    using assms by (simp add: fft_freqs_def fftfreq_def SAMPLE_SIZE_def SAMPLING_FREQ_def)
  also have "((16384::nat) - 1) div 2 + 1 = 8192" by simp
  also have "real (44100::nat) / real (16384::nat) = 11025 / 4096" by simp
  finally show ?thesis by simp
qed

lemma first_pos_eq:
  assumes "i < length xs" and "xs ! i = v" and "\<And>j. j < i \<Longrightarrow> xs ! j \<noteq> v"
  shows "first_pos v xs = i"
proof -
  have "takeWhile (\<lambda>x. x \<noteq> v) xs = take i xs"
    using assms by (intro takeWhile_eq_take_P_nth) auto
  with assms(1) show ?thesis by (simp add: first_pos_def)
qed

lemma argmin_unique:
  assumes i: "i < length xs" and less: "\<And>j. j < length xs \<Longrightarrow> j \<noteq> i \<Longrightarrow> xs ! i < xs ! j"
  shows "argmin xs = Inr i"
proof -
  have le: "xs ! i \<le> y" if "y \<in> set xs" for y
  proof -
    from that obtain j where "j < length xs" "y = xs ! j" by (auto simp: in_set_conv_nth)
    with less [of j] show ?thesis by (cases "j = i") auto
  qed
  have "Min (set xs) = xs ! i"
    using i le by (intro Min_eqI) auto
  moreover have "first_pos (xs ! i) xs = i"
  proof (rule first_pos_eq [OF i refl])
    fix j
    assume "j < i"
    with i less [of j] show "xs ! j \<noteq> xs ! i" by simp
  qed
  moreover from i have "xs \<noteq> []" by auto
  ultimately show ?thesis by (simp add: argmin_def)
qed

lemma nearest_bin_eq:
  assumes k: "1 \<le> k" "k < 8192"
    and lo: "(real k - 1 / 2) * (11025 / 4096) < f"
    and hi: "f < (real k + 1 / 2) * (11025 / 4096)"
  shows "nearest_bin f = Inr k"
  unfolding nearest_bin_def
proof (rule argmin_unique)
  show "k < length (map (\<lambda>x. \<bar>x - f\<bar>) fft_freqs)"
    using k by (simp add: fft_freqs_length)
next
  fix j
  assume "j < length (map (\<lambda>x. \<bar>x - f\<bar>) fft_freqs)" and jk: "j \<noteq> k"
  then have j: "j < 16384" by (simp add: fft_freqs_length)
  from k have fk: "fft_freqs ! k = real k * (11025 / 4096)" by (simp add: fft_freqs_nth)
  have half: "(real k - 1 / 2) * (11025 / 4096) = real k * (11025 / 4096) - 11025 / 8192"
    "(real k + 1 / 2) * (11025 / 4096) = real k * (11025 / 4096) + 11025 / 8192"
    by (simp_all add: left_diff_distrib distrib_right)
  note lo' = lo [unfolded half] and hi' = hi [unfolded half]
  have near: "\<bar>real k * (11025 / 4096) - f\<bar> < 11025 / 8192"
    using lo' hi' by linarith
  have far: "11025 / 8192 \<le> \<bar>fft_freqs ! j - f\<bar>"
  proof (cases "j < 8192")
    case True
    then have fj: "fft_freqs ! j = real j * (11025 / 4096)" by (simp add: fft_freqs_nth)
    from jk consider "j + 1 \<le> k" | "k + 1 \<le> j" by linarith
    then show ?thesis
    proof cases
      case 1
      then have "real j + 1 \<le> real k" by linarith
      then have "real j * (11025 / 4096) \<le> (real k - 1) * (11025 / 4096)" by simp
      also have "\<dots> = real k * (11025 / 4096) - 11025 / 4096" by (simp add: left_diff_distrib)
      finally show ?thesis using lo' unfolding fj by linarith
    next
      case 2
      then have "real k + 1 \<le> real j" by linarith
      then have "(real k + 1) * (11025 / 4096) \<le> real j * (11025 / 4096)" by simp
      moreover have "(real k + 1) * (11025 / 4096) = real k * (11025 / 4096) + 11025 / 4096"
        by (simp add: distrib_right)
      ultimately show ?thesis using hi' unfolding fj by linarith
    qed
  next
    case False
    with j have fj: "fft_freqs ! j = (real j - 16384) * (11025 / 4096)"
      by (simp add: fft_freqs_nth)
    from j have "real j - 16384 \<le> 0" by simp
    then have neg: "(real j - 16384) * (11025 / 4096) \<le> 0"
      by (simp add: mult_le_0_iff)
    from k(1) have "1 * (11025 / 4096) \<le> real k * (11025 / 4096)"
      by (intro mult_right_mono) simp_all
    with lo' have "11025 / 8192 < f" by linarith
    with neg show ?thesis unfolding fj by linarith
  qed
  from k j have "map (\<lambda>x. \<bar>x - f\<bar>) fft_freqs ! k = \<bar>real k * (11025 / 4096) - f\<bar>"
    "map (\<lambda>x. \<bar>x - f\<bar>) fft_freqs ! j = \<bar>fft_freqs ! j - f\<bar>"
    by (simp_all add: fft_freqs_length fk)
  with near far show "map (\<lambda>x. \<bar>x - f\<bar>) fft_freqs ! k < map (\<lambda>x. \<bar>x - f\<bar>) fft_freqs ! j"
    by linarith
qed

lemma fft_imin_value: "fft_imin = Inr 31"
proof -
  have "nearest_bin (midi_to_freq 40) = Inr 31"
    using midi_40_above midi_40_below by (intro nearest_bin_eq) simp_all
  then show ?thesis by (simp add: fft_imin_def MIDI_MIN_def)
qed

lemma fft_imax_value: "fft_imax = Inr 246"
proof -
  have "nearest_bin (midi_to_freq 76) = Inr 245"
    using midi_76_above midi_76_below by (intro nearest_bin_eq) simp_all
  then show ?thesis by (simp add: fft_imax_def MIDI_MAX_def bind_err_def)
qed

lemma argmax_props:
  assumes "xs \<noteq> []"
  shows "\<exists>k. argmax xs = Inr k \<and> k < length xs \<and> (\<forall>j < length xs. xs ! j \<le> xs ! k)"
proof -
  let ?m = "Max (set xs)"
  let ?k = "first_pos ?m xs"
  from assms have mem: "?m \<in> set xs" by (intro Max_in) auto
  have "length (takeWhile (\<lambda>x. x \<noteq> ?m) xs) \<noteq> length xs"
  proof
    assume e: "length (takeWhile (\<lambda>x. x \<noteq> ?m) xs) = length xs"
    have "takeWhile (\<lambda>x. x \<noteq> ?m) xs = take (length (takeWhile (\<lambda>x. x \<noteq> ?m) xs)) xs"
      by (rule takeWhile_eq_take)
    with e have "takeWhile (\<lambda>x. x \<noteq> ?m) xs = xs" by simp
    with mem show False by (auto simp: takeWhile_eq_all_conv)
  qed
  with length_takeWhile_le [of "\<lambda>x. x \<noteq> ?m" xs] have k: "?k < length xs"
    unfolding first_pos_def by linarith
  from nth_length_takeWhile [of "\<lambda>x. x \<noteq> ?m" xs] k have "xs ! ?k = ?m"
    unfolding first_pos_def by simp
  moreover have "xs ! j \<le> ?m" if "j < length xs" for j
    using that by (intro Max_ge) auto
  ultimately show ?thesis using assms k by (simp add: argmax_def)
qed

lemma py_round_band:
  assumes "79 / 2 < y" and "y < 153 / 2"
  shows "40 \<le> py_round y \<and> py_round y \<le> 76"
proof -
  from assms have "0 \<le> y" by simp
  then have "py_round y = \<lfloor>y + 1 / 2\<rfloor>" by (simp add: py_round_def)
  moreover from assms have "40 \<le> \<lfloor>y + 1 / 2\<rfloor>" by (simp add: le_floor_iff)
  moreover from assms have "\<lfloor>y + 1 / 2\<rfloor> < 77" by (simp add: floor_less_iff)
  ultimately show ?thesis by simp
qed

lemma bin_in_band:
  assumes "31 \<le> k" and "k \<le> 245"
  shows "\<exists>m. freq_to_midi (fft_freqs ! k) = Inr m \<and> 40 \<le> m \<and> m \<le> 76"
proof -
  let ?x = "real k * (11025 / 4096) / 440"
  from assms have fk: "fft_freqs ! k = real k * (11025 / 4096)" by (simp add: fft_freqs_nth)
  from assms have pos: "0 < real k * (11025 / 4096)" by simp
  then have xpos: "0 < ?x" by simp
  from assms have "31 * (11025 / 4096) / 440 \<le> ?x" by simp
  with band_low have "2 powr (- 59 / 24) < ?x" by linarith
  with xpos have lo: "- 59 / 24 < log 2 ?x"
    by (intro iffD2 [OF less_log_iff]) simp_all
  from assms have "?x \<le> 245 * (11025 / 4096) / 440" by simp
  with band_high have "?x < 2 powr (15 / 24)" by linarith
  with xpos have hi: "log 2 ?x < 15 / 24"
    by (intro iffD2 [OF log_less_iff]) simp_all
  from lo hi have "79 / 2 < 69 + 12 * log 2 ?x" "69 + 12 * log 2 ?x < 153 / 2" by linarith+
  from py_round_band [OF this] pos show ?thesis
    unfolding fk by (simp add: freq_to_midi_def)
qed

lemma py_getitem_nat: "n < length xs \<Longrightarrow> py_getitem xs (int n) = Inr (xs ! n)"
  by (simp add: py_getitem_def)

text \<open>
  Claim C9. For the spectrum of every block, the frequency that the analysis reports is
  the frequency of a bin of the restricted index range, which is bins 31 to 245, and
  indeed of a bin whose magnitude is largest in that range; its nearest MIDI value lies
  in \<open>[40, 76]\<close>. This holds wherever the largest magnitude of the whole spectrum lies.
\<close>

theorem dominant_frequency_in_band:
  assumes "length mags = SAMPLE_SIZE div 2 + 1"
  shows "fft_imin = Inr 31 \<and> fft_imax = Inr 246
         \<and> (\<exists>k m. 31 \<le> k \<and> k < 246
               \<and> analyse mags = Inr (fft_freqs ! k, average mags)
               \<and> (\<forall>j. 31 \<le> j \<and> j < 246 \<longrightarrow> mags ! j \<le> mags ! k)
               \<and> freq_to_midi (fft_freqs ! k) = Inr m \<and> 40 \<le> m \<and> m \<le> 76)"
proof -
  let ?slice = "take (246 - 31) (drop 31 mags)"
  from assms have len: "length mags = 8193" by (simp add: SAMPLE_SIZE_def)
  then have sl: "length ?slice = 215" by simp
  then have "?slice \<noteq> []" by auto
  from argmax_props [OF this] sl obtain k0 where
    k0: "argmax ?slice = Inr k0" "k0 < 215" and mx: "\<forall>j < 215. ?slice ! j \<le> ?slice ! k0"
    by auto
  have nth: "?slice ! j = mags ! (j + 31)" if "j < 215" for j
    using that len by (simp add: add.commute)
  let ?k = "k0 + 31"
  from k0(2) have k: "31 \<le> ?k" "?k < 246" by simp_all
  have best: "mags ! j \<le> mags ! ?k" if "31 \<le> j \<and> j < 246" for j
  proof -
    from that have a: "j - 31 < 215" and b: "j - 31 + 31 = j" by linarith+
    from mx a have "?slice ! (j - 31) \<le> ?slice ! k0" by blast
    then show ?thesis unfolding nth [OF a] nth [OF k0(2)] b .
  qed
  from k have "?k < length fft_freqs" by (simp add: fft_freqs_length)
  then have "py_getitem fft_freqs (int ?k) = Inr (fft_freqs ! ?k)"
    by (rule py_getitem_nat)
  with k0(1) have a: "analyse mags = Inr (fft_freqs ! ?k, average mags)"
    by (simp add: analyse_def fft_imin_value fft_imax_value bind_err_def)
  from k have "?k \<le> 245" by simp
  from bin_in_band [OF k(1) this] obtain m where
    "freq_to_midi (fft_freqs ! ?k) = Inr m" "40 \<le> m" "m \<le> 76" by blast
  with k a best show ?thesis using fft_imin_value fft_imax_value by blast
qed

theorem dominant_frequency_in_band_witness:
  "length hum_spectrum = SAMPLE_SIZE div 2 + 1
   \<and> Max (set hum_spectrum) = hum_spectrum ! 5
   \<and> (\<exists>k m. 31 \<le> k \<and> k < 246
          \<and> analyse hum_spectrum = Inr (fft_freqs ! k, average hum_spectrum)
          \<and> freq_to_midi (fft_freqs ! k) = Inr m \<and> 40 \<le> m \<and> m \<le> 76)"
proof -
  have len: "length hum_spectrum = SAMPLE_SIZE div 2 + 1"
    by (simp add: hum_spectrum_def SAMPLE_SIZE_def)
  have five: "hum_spectrum ! 5 = 9" by (simp add: hum_spectrum_def)
  have "Max (set hum_spectrum) = 9"
  proof (rule Max_eqI)
    show "finite (set hum_spectrum)" by simp
    show "9 \<in> set hum_spectrum"
      unfolding hum_spectrum_def by (rule set_update_memI) simp
    fix y
    assume "y \<in> set hum_spectrum"
    then have "y \<in> insert 9 (set (replicate 8193 0))"
      unfolding hum_spectrum_def using set_update_subset_insert by fast
    then show "y \<le> 9" by auto
  qed
  with five have mx: "Max (set hum_spectrum) = hum_spectrum ! 5" by simp
  from dominant_frequency_in_band [OF len] len mx show ?thesis by blast
qed

section \<open>Tolerance of the pitch round trip\<close>

text \<open>
  The round trip does not sit on a rounding boundary: every frequency within one percent
  of the frequency of a midi value of the band is mapped to that value, so an error of a
  few units in the last place of a floating-point result cannot change the answer.
\<close>

lemma pitch_tolerance:
  assumes m: "40 \<le> m" "m \<le> 76"
    and f: "\<bar>f - midi_to_freq m\<bar> \<le> midi_to_freq m / 100"
  shows "freq_to_midi f = Inr m"
proof -
  let ?f0 = "midi_to_freq m"
  let ?r = "f / ?f0"
  have f0: "0 < ?f0" by (rule midi_to_freq_pos)
  from f have "99 / 100 * ?f0 \<le> f" "f \<le> 101 / 100 * ?f0" by linarith+
  with f0 have r: "99 / 100 \<le> ?r" "?r \<le> 101 / 100"
    by (simp_all add: pos_le_divide_eq pos_divide_le_eq)
  then have rpos: "0 < ?r" by linarith
  with f0 have fpos: "0 < f" by (simp add: zero_less_divide_iff)
  have "(2::real) powr (- 1) < (99 / 100) ^ 24"
    by (simp add: powr_minus_divide power_divide)
  from powr_root_less [OF _ _ this] have "(2::real) powr (- 1 / 24) < 99 / 100" by simp
  with r(1) have "2 powr (- 1 / 24) < ?r" by linarith
  with rpos have lo: "- 1 / 24 < log 2 ?r"
    by (intro iffD2 [OF less_log_iff]) simp_all
  have "(101 / 100 :: real) ^ 24 < 2 powr 1"
    by (simp add: power_divide)
  from less_powr_root [OF _ this] have "(101 / 100 :: real) < 2 powr (1 / 24)" by simp
  with r(2) have "?r < 2 powr (1 / 24)" by linarith
  with rpos have hi: "log 2 ?r < 1 / 24"
    by (intro iffD2 [OF log_less_iff]) simp_all
  have e: "f / 440 = ?r * (?f0 / 440)" using f0 by simp
  have "log 2 (?r * (?f0 / 440)) = log 2 ?r + log 2 (?f0 / 440)"
    by (intro log_mult_pos) (use rpos f0 in simp_all)
  then have "log 2 (f / 440) = log 2 ?r + log 2 (?f0 / 440)"
    by (simp only: e)
  then have y: "69 + 12 * log 2 (f / 440) = real_of_int m + 12 * log 2 ?r"
    using semitones_of_midi_to_freq [of m] by simp
  from lo hi have d: "- 1 / 2 < 12 * log 2 ?r" "12 * log 2 ?r < 1 / 2" by linarith+
  with m have "0 \<le> real_of_int m + 12 * log 2 ?r" by linarith
  then have "py_round (real_of_int m + 12 * log 2 ?r) = \<lfloor>real_of_int m + 12 * log 2 ?r + 1 / 2\<rfloor>"
    by (simp add: py_round_def)
  also have "\<dots> = m" using d by (intro floor_unique) simp_all
  finally show ?thesis using fpos y by (simp add: freq_to_midi_def)
qed

end
